theory Spec2Isabelle
  imports Main "HOL-Library.AList"
begin

section \<open>Python values and exceptions\<close>

text \<open>
  The exceptions the modelled functions of \<^verbatim>\<open>genshin.py\<close> can raise. \<open>HoyoLabException\<close>
  is the program's own exception class and carries its message. \<open>FloatPower\<close> is not a
  Python exception: it marks the one expression of \<^verbatim>\<open>process_item_iterative\<close> that this
  development does not evaluate, \<^verbatim>\<open>3 ** n\<close> for a negative \<open>n\<close>, which Python computes as a
  float with the C library's \<^verbatim>\<open>pow\<close>. Lemma \<open>float_power_unreachable\<close> shows that the
  program never reaches it.
\<close>

datatype json =
    JNull
  | JBool bool
  | JInt int
  | JStr string
  | JList "json list"
  | JDict "(string \<times> json) list"

datatype py_error =
    KeyError
  | IndexError
  | TypeError
  | AttributeError
  | ZeroDivisionError
  | OverflowError
  | HoyoLabException json
  | FloatPower

subsection \<open>\<^verbatim>\<open>int(a / b)\<close> on Python integers\<close>

text \<open>
  \<^verbatim>\<open>a / b\<close> on two Python integers is true division: the result is the IEEE 754 double
  nearest to the exact quotient (ties to even), \<^verbatim>\<open>ZeroDivisionError\<close> for \<open>b = 0\<close> and
  \<^verbatim>\<open>OverflowError\<close> when the rounded quotient does not fit a double. \<^verbatim>\<open>int\<close> then truncates
  toward zero. The quotient \<open>n / d\<close> of two positive integers lies in the binade
  \<open>2 ^ e \<le> n / d < 2 ^ (e + 1)\<close>; doubles there are the multiples of \<open>2 ^ (e - 52)\<close>
  (of \<open>2 ^ - 1074\<close> in the subnormal range).
\<close>

fun bit_length :: "nat \<Rightarrow> nat" where
  "bit_length n = (if n = 0 then 0 else Suc (bit_length (n div 2)))"

declare bit_length.simps [simp del]

definition round_half_even :: "nat \<Rightarrow> nat \<Rightarrow> nat" where
  "round_half_even n d =
     (let q = n div d; r = n mod d
      in if 2 * r < d then q
         else if d < 2 * r then q + 1
         else if even q then q else q + 1)"

definition binade :: "nat \<Rightarrow> nat \<Rightarrow> int" where
  "binade n d =
     (let k = int (bit_length n) - int (bit_length d)
      in if (if 0 \<le> k then d * 2 ^ nat k \<le> n else d \<le> n * 2 ^ nat (- k))
         then k else k - 1)"

definition truediv_trunc :: "nat \<Rightarrow> nat \<Rightarrow> py_error + nat" where
  "truediv_trunc n d =
     (let e = binade n d;
          s = max (e - 52) (- 1074)
      in if 0 \<le> s
         then (let v = round_half_even n (d * 2 ^ nat s) * 2 ^ nat s
               in if 2 ^ 1024 \<le> v then Inl OverflowError else Inr v)
         else Inr (round_half_even (n * 2 ^ nat (- s)) d div 2 ^ nat (- s)))"

definition py_int_truediv :: "int \<Rightarrow> int \<Rightarrow> py_error + int" where
  "py_int_truediv a b =
     (if b = 0 then Inl ZeroDivisionError
      else if a = 0 then Inr 0
      else (case truediv_trunc (nat \<bar>a\<bar>) (nat \<bar>b\<bar>) of
              Inl err \<Rightarrow> Inl err
            | Inr t \<Rightarrow> Inr (sgn a * sgn b * int t)))"

section \<open>The cleaned inventory\<close>

text \<open>
  A cleaned item is the dict \<^verbatim>\<open>{"good", "id", "extra", "num"}\<close> that
  \<^verbatim>\<open>clean_up_materials\<close> builds; the counts are Python integers. \<^verbatim>\<open>good_result\<close> is a Python
  dict from normalized name to item. A Python dict keeps insertion order, so it is an
  association list: a lookup is \<open>map_of\<close>, a store to a key is \<open>AList.update\<close> (in place
  for a key that is there, at the end for a new one). Every key holds an item of its own,
  as in \<^verbatim>\<open>clean_up_materials\<close>, so a store to one item changes no other.
\<close>

record item =
  good :: string
  item_id :: int
  extra :: int
  num :: int

type_synonym good_result = "(string \<times> item) list"

section \<open>\<^verbatim>\<open>process_item_iterative\<close>\<close>

text \<open>
  Lines 231 to 234, \<^verbatim>\<open>for i in range(current_index + 1, len(item_list))\<close>: the first
  position from \<open>i\<close> on whose item has \<^verbatim>\<open>extra == 0\<close>. The second argument is the part of
  \<^verbatim>\<open>item_list\<close> from position \<open>i\<close> on.
\<close>

fun search_forward :: "good_result \<Rightarrow> string list \<Rightarrow> nat \<Rightarrow> py_error + nat option" where
  "search_forward good_result [] i = Inr None"
| "search_forward good_result (name # rest) i =
     (case map_of good_result name of
        None \<Rightarrow> Inl KeyError
      | Some it \<Rightarrow> if extra it = 0 then Inr (Some i) else search_forward good_result rest (Suc i))"

text \<open>
  Line 229, the condition under which the cached \<^verbatim>\<open>next_valid_index\<close> is searched again:
  \<^verbatim>\<open>next_valid_index is None or good_result[item_list[next_valid_index]]["extra"] == 0\<close>.
\<close>

definition search_again :: "good_result \<Rightarrow> string list \<Rightarrow> nat option \<Rightarrow> py_error + bool" where
  "search_again good_result item_list next_valid_index =
     (case next_valid_index of
        None \<Rightarrow> Inr True
      | Some j \<Rightarrow>
          if length item_list \<le> j then Inl IndexError
          else (case map_of good_result (item_list ! j) of
                  None \<Rightarrow> Inl KeyError
                | Some it \<Rightarrow> Inr (extra it = 0)))"

text \<open>Lines 229 to 234: the value of \<^verbatim>\<open>next_valid_index\<close> after the \<^verbatim>\<open>if\<close>.\<close>

definition refresh :: "good_result \<Rightarrow> string list \<Rightarrow> nat \<Rightarrow> nat option \<Rightarrow> py_error + nat option" where
  "refresh good_result item_list current_index next_valid_index =
     (case search_again good_result item_list next_valid_index of
        Inl err \<Rightarrow> Inl err
      | Inr True \<Rightarrow>
          search_forward good_result (drop (Suc current_index) item_list) (Suc current_index)
      | Inr False \<Rightarrow> Inr next_valid_index)"

text \<open>
  Lines 237 and 238: \<^verbatim>\<open>adjustment_factor = 3 ** (next_valid_index - current_index)\<close> and
  \<^verbatim>\<open>good_result[item_list[next_valid_index]]["num"] -= int(good_result[sub_item]["extra"] / adjustment_factor)\<close>.
\<close>

definition adjust :: "good_result \<Rightarrow> string list \<Rightarrow> nat \<Rightarrow> string \<Rightarrow> nat \<Rightarrow> py_error + good_result" where
  "adjust good_result item_list current_index sub_item j =
     (if j < current_index then Inl FloatPower
      else if length item_list \<le> j then Inl IndexError
      else (case map_of good_result (item_list ! j) of
              None \<Rightarrow> Inl KeyError
            | Some target \<Rightarrow>
                (case map_of good_result sub_item of
                   None \<Rightarrow> Inl KeyError
                 | Some source \<Rightarrow>
                     (case py_int_truediv (extra source) (3 ^ (j - current_index)) of
                        Inl err \<Rightarrow> Inl err
                      | Inr d \<Rightarrow>
                          Inr (AList.update (item_list ! j)
                                 (target\<lparr>num := num target - d\<rparr>) good_result)))))"

text \<open>
  Lines 227 to 238, the body of the loop over \<^verbatim>\<open>enumerate(item_list)\<close>, on the pair of
  \<^verbatim>\<open>good_result\<close> and \<^verbatim>\<open>next_valid_index\<close>.
\<close>

definition chain_body ::
  "string list \<Rightarrow> nat \<Rightarrow> string \<Rightarrow> good_result \<times> nat option \<Rightarrow> py_error + (good_result \<times> nat option)" where
  "chain_body item_list current_index sub_item st =
     (case map_of (fst st) sub_item of
        None \<Rightarrow> Inl KeyError
      | Some source \<Rightarrow>
          if 0 < extra source then
            (case refresh (fst st) item_list current_index (snd st) of
               Inl err \<Rightarrow> Inl err
             | Inr None \<Rightarrow> Inr (fst st, None)
             | Inr (Some j) \<Rightarrow>
                 (case adjust (fst st) item_list current_index sub_item j of
                    Inl err \<Rightarrow> Inl err
                  | Inr good_result' \<Rightarrow> Inr (good_result', Some j)))
          else Inr st)"

text \<open>
  The loop of line 226 from position \<open>current_index\<close> on; the second argument is the part
  of \<^verbatim>\<open>item_list\<close> still to visit. The dict is mutated in place, so when an iteration raises
  the caller sees the dict as the earlier iterations left it: the result is the state
  together with the exception, if any.
\<close>

fun chain_loop ::
  "string list \<Rightarrow> string list \<Rightarrow> nat \<Rightarrow> good_result \<times> nat option
     \<Rightarrow> (good_result \<times> nat option) \<times> py_error option" where
  "chain_loop item_list [] current_index st = (st, None)"
| "chain_loop item_list (sub_item # rest) current_index st =
     (case chain_body item_list current_index sub_item st of
        Inl err \<Rightarrow> (st, Some err)
      | Inr st' \<Rightarrow> chain_loop item_list rest (Suc current_index) st')"

text \<open>Lines 223 to 238: every chain starts with \<^verbatim>\<open>next_valid_index = None\<close>.\<close>

fun process_item_iterative :: "string list list \<Rightarrow> good_result \<Rightarrow> good_result \<times> py_error option" where
  "process_item_iterative [] good_result = (good_result, None)"
| "process_item_iterative (item_list # others) good_result =
     (case chain_loop item_list item_list 0 (good_result, None) of
        (st, Some err) \<Rightarrow> (fst st, Some err)
      | (st, None) \<Rightarrow> process_item_iterative others (fst st))"

text \<open>
  The names line 238 stores to. \<open>chosen_target\<close> is the target of one iteration of the
  inner loop: the item at \<^verbatim>\<open>next_valid_index\<close> when the item at \<^verbatim>\<open>current_index\<close> has
  \<^verbatim>\<open>extra > 0\<close> and lines 229 to 234 leave an index. \<open>chain_targets\<close> and
  \<open>chosen_targets\<close> collect them along the two loops.
\<close>

definition chosen_target ::
  "string list \<Rightarrow> nat \<Rightarrow> string \<Rightarrow> good_result \<times> nat option \<Rightarrow> string option" where
  "chosen_target item_list current_index sub_item st =
     (case map_of (fst st) sub_item of
        None \<Rightarrow> None
      | Some source \<Rightarrow>
          if 0 < extra source then
            (case refresh (fst st) item_list current_index (snd st) of
               Inl err \<Rightarrow> None
             | Inr None \<Rightarrow> None
             | Inr (Some j) \<Rightarrow> Some (item_list ! j))
          else None)"

fun chain_targets ::
  "string list \<Rightarrow> string list \<Rightarrow> nat \<Rightarrow> good_result \<times> nat option \<Rightarrow> string list" where
  "chain_targets item_list [] current_index st = []"
| "chain_targets item_list (sub_item # rest) current_index st =
     (case chain_body item_list current_index sub_item st of
        Inl err \<Rightarrow> []
      | Inr st' \<Rightarrow>
          (case chosen_target item_list current_index sub_item st of
             None \<Rightarrow> []
           | Some name \<Rightarrow> [name])
          @ chain_targets item_list rest (Suc current_index) st')"

fun chosen_targets :: "string list list \<Rightarrow> good_result \<Rightarrow> string list" where
  "chosen_targets [] good_result = []"
| "chosen_targets (item_list # others) good_result =
     chain_targets item_list item_list 0 (good_result, None)
     @ (case chain_loop item_list item_list 0 (good_result, None) of
          (st, Some err) \<Rightarrow> []
        | (st, None) \<Rightarrow> chosen_targets others (fst st))"

subsection \<open>The loop without a cache\<close>

text \<open>
  The redistribution as a search from \<^verbatim>\<open>current_index + 1\<close> at every item with
  \<^verbatim>\<open>extra > 0\<close>, with no index kept from one item to the next. This is not a translation
  of the source: it is the behaviour that \<open>process_item_iterative\<close> is compared with.
\<close>

definition rescan_body :: "string list \<Rightarrow> nat \<Rightarrow> string \<Rightarrow> good_result \<Rightarrow> py_error + good_result" where
  "rescan_body item_list current_index sub_item good_result =
     (case map_of good_result sub_item of
        None \<Rightarrow> Inl KeyError
      | Some source \<Rightarrow>
          if 0 < extra source then
            (case search_forward good_result (drop (Suc current_index) item_list) (Suc current_index) of
               Inl err \<Rightarrow> Inl err
             | Inr None \<Rightarrow> Inr good_result
             | Inr (Some j) \<Rightarrow> adjust good_result item_list current_index sub_item j)
          else Inr good_result)"

fun rescan_loop ::
  "string list \<Rightarrow> string list \<Rightarrow> nat \<Rightarrow> good_result \<Rightarrow> good_result \<times> py_error option" where
  "rescan_loop item_list [] current_index good_result = (good_result, None)"
| "rescan_loop item_list (sub_item # rest) current_index good_result =
     (case rescan_body item_list current_index sub_item good_result of
        Inl err \<Rightarrow> (good_result, Some err)
      | Inr good_result' \<Rightarrow> rescan_loop item_list rest (Suc current_index) good_result')"

fun process_item_rescan :: "string list list \<Rightarrow> good_result \<Rightarrow> good_result \<times> py_error option" where
  "process_item_rescan [] good_result = (good_result, None)"
| "process_item_rescan (item_list # others) good_result =
     (case rescan_loop item_list item_list 0 good_result of
        (good_result', Some err) \<Rightarrow> (good_result', Some err)
      | (good_result', None) \<Rightarrow> process_item_rescan others good_result')"

section \<open>\<^verbatim>\<open>clean_up_materials\<close>\<close>

subsection \<open>Name normalization\<close>

text \<open>
  Line 245 and 246 on a name of ASCII characters. A \<open>string\<close> is a list of 8-bit characters;
  the Python \<^verbatim>\<open>str\<close> methods and \<^verbatim>\<open>\W\<close> are modelled on the codes below 128, where
  they are the ASCII letter, digit and underscore tests. What Python does to a character
  outside ASCII depends on the Unicode tables and is not part of this development: the
  statements about names are about ASCII names (\<open>ascii_name\<close>).
\<close>

definition ascii_name :: "string \<Rightarrow> bool" where
  "ascii_name s = list_all (\<lambda>c. (of_char c :: nat) < 128) s"

definition is_lower :: "char \<Rightarrow> bool" where
  "is_lower c = (97 \<le> (of_char c :: nat) \<and> (of_char c :: nat) \<le> 122)"

definition is_upper :: "char \<Rightarrow> bool" where
  "is_upper c = (65 \<le> (of_char c :: nat) \<and> (of_char c :: nat) \<le> 90)"

definition is_digit :: "char \<Rightarrow> bool" where
  "is_digit c = (48 \<le> (of_char c :: nat) \<and> (of_char c :: nat) \<le> 57)"

text \<open>\<^verbatim>\<open>\w\<close>: a letter, a digit or the underscore (code 95).\<close>

definition is_word :: "char \<Rightarrow> bool" where
  "is_word c = (is_lower c \<or> is_upper c \<or> is_digit c \<or> (of_char c :: nat) = 95)"

definition upper :: "char \<Rightarrow> char" where
  "upper c = (if is_lower c then char_of ((of_char c :: nat) - 32) else c)"

definition lower :: "char \<Rightarrow> char" where
  "lower c = (if is_upper c then char_of ((of_char c :: nat) + 32) else c)"

text \<open>\<^verbatim>\<open>str.capitalize\<close>: the first character in upper case, the others in lower case.\<close>

fun capitalize :: "string \<Rightarrow> string" where
  "capitalize [] = []"
| "capitalize (c # cs) = upper c # map lower cs"

text \<open>\<^verbatim>\<open>s.strip('"')\<close>: the double quotes (code 34) at both ends are removed.\<close>

definition strip_quotes :: "string \<Rightarrow> string" where
  "strip_quotes s =
     rev (dropWhile (\<lambda>c. (of_char c :: nat) = 34) (rev (dropWhile (\<lambda>c. (of_char c :: nat) = 34) s)))"

text \<open>
  \<^verbatim>\<open>re.split(r"[- ]", s)\<close>: the pieces between the hyphens and spaces; two separators in
  a row, or one at an end, give an empty piece.
\<close>

definition is_separator :: "char \<Rightarrow> bool" where
  "is_separator c = ((of_char c :: nat) = 45 \<or> (of_char c :: nat) = 32)"

fun re_split :: "string \<Rightarrow> string list" where
  "re_split [] = [[]]"
| "re_split (c # cs) =
     (if is_separator c then [] # re_split cs
      else (case re_split cs of
              [] \<Rightarrow> [[c]]
            | w # ws \<Rightarrow> (c # w) # ws))"

text \<open>\<^verbatim>\<open>" ".join(words)\<close>.\<close>

fun join_space :: "string list \<Rightarrow> string" where
  "join_space [] = []"
| "join_space [w] = w"
| "join_space (w # v # ws) = w @ CHR 0x20 # join_space (v # ws)"

text \<open>Lines 245 and 246: the value of \<^verbatim>\<open>good_name\<close> for the raw name.\<close>

definition good_name :: "string \<Rightarrow> string" where
  "good_name raw = filter is_word (join_space (map capitalize (re_split (strip_quotes raw))))"

subsection \<open>Deduplication, tiers and chains\<close>

text \<open>
  A consumption record, as \<^verbatim>\<open>calculate_selected_materials\<close> returns it: the keys
  \<^verbatim>\<open>id\<close>, \<^verbatim>\<open>name\<close>, \<^verbatim>\<open>num\<close>, \<^verbatim>\<open>lack_num\<close> and \<^verbatim>\<open>extra\<close> of the dict.
\<close>

record material =
  m_id :: int
  m_name :: string
  m_num :: int
  m_lack_num :: int
  m_extra :: int

text \<open>Lines 245 to 256, the body of the loop over \<^verbatim>\<open>materials\<close>.\<close>

definition clean_step :: "good_result \<Rightarrow> material \<Rightarrow> good_result" where
  "clean_step cleaned_items mat =
     (let name = good_name (m_name mat);
          new_num = m_num mat - m_lack_num mat + m_extra mat
      in if (case map_of cleaned_items name of
               None \<Rightarrow> True
             | Some old \<Rightarrow> num old < new_num)
         then AList.update name
                \<lparr>good = name, item_id = m_id mat, extra = m_extra mat, num = new_num\<rparr>
                cleaned_items
         else cleaned_items)"

text \<open>
  Lines 264 to 274, the loop that appends each item to \<^verbatim>\<open>four_tiers\<close>, to
  \<^verbatim>\<open>three_tiers\<close> or to neither; the pair is (\<^verbatim>\<open>four_tiers\<close>, \<^verbatim>\<open>three_tiers\<close>).
\<close>

fun classify :: "item list \<Rightarrow> item list \<times> item list \<Rightarrow> item list \<times> item list" where
  "classify [] groups = groups"
| "classify (it # rest) groups =
     (if 114000 < item_id it \<or> (104100 < item_id it \<and> item_id it < 104300)
      then classify rest (fst groups @ [it], snd groups)
      else if 104300 < item_id it \<and> item_id it < 113000 \<and> item_id it \<noteq> 104319
      then classify rest (fst groups, snd groups @ [it])
      else classify rest groups)"

text \<open>
  \<^verbatim>\<open>[xs[i:i + n] for i in range(0, len(xs), n)]\<close>. The program takes \<open>n\<close> from the keys
  4 and 3 of \<^verbatim>\<open>material_groups\<close> (and 200 for the request chunks); \<^verbatim>\<open>range\<close> with step 0
  raises, and the model gives no chunk there.
\<close>

function chunked :: "nat \<Rightarrow> 'a list \<Rightarrow> 'a list list" where
  "chunked n xs = (if n = 0 \<or> xs = [] then [] else take n xs # chunked n (drop n xs))"
  by pat_completeness auto
termination
  by (relation "measure (\<lambda>(n, xs). length xs)") auto

declare chunked.simps [simp del]

text \<open>
  Lines 276 to 282: the chains, for the tier keys in insertion order 4 then 3, each chunk
  as names in reverse, and the whole list reversed.
\<close>

definition materials_group_to_check :: "item list \<times> item list \<Rightarrow> string list list" where
  "materials_group_to_check groups =
     rev (map (\<lambda>chunk. rev (map good chunk)) (chunked 4 (fst groups))
          @ map (\<lambda>chunk. rev (map good chunk)) (chunked 3 (snd groups)))"

text \<open>
  Line 258: \<^verbatim>\<open>sorted(..., key=id, reverse=True)\<close> is stable, items of one id keep their
  order, as \<open>sort_key\<close> on the negated id does.
\<close>

definition sorted_cleaned_items :: "good_result \<Rightarrow> item list" where
  "sorted_cleaned_items cleaned_items = sort_key (\<lambda>it. - item_id it) (map snd cleaned_items)"

definition clean_up_materials :: "material list \<Rightarrow> py_error + good_result" where
  "clean_up_materials materials =
     (let cleaned_items = foldl clean_step [] materials;
          groups = classify (sorted_cleaned_items cleaned_items) ([], [])
      in (case process_item_iterative (materials_group_to_check groups) cleaned_items of
            (good_result, None) \<Rightarrow> Inr good_result
          | (good_result, Some err) \<Rightarrow> Inl err))"

section \<open>\<^verbatim>\<open>find_min_entity_needed\<close>\<close>

text \<open>
  The catalog is a dict from entity id to the list of its material ids, in insertion
  order; its keys are distinct. The sets of the source are sets of material ids.
\<close>

type_synonym catalog = "(int \<times> int list) list"

text \<open>Lines 121 to 123.\<close>

definition all_materials :: "catalog \<Rightarrow> int set" where
  "all_materials item_materials_dict = foldl (\<lambda>acc entry. acc \<union> set (snd entry)) {} item_materials_dict"

text \<open>
  Lines 134 to 138, the scan of the entities that are left: the pair is
  (\<^verbatim>\<open>best_entity\<close>, \<^verbatim>\<open>best_coverage\<close>), and an entity replaces the best one only with a
  strictly larger new coverage.
\<close>

fun best_scan :: "catalog \<Rightarrow> int set \<Rightarrow> int option \<times> int set \<Rightarrow> int option \<times> int set" where
  "best_scan [] covered best = best"
| "best_scan (entry # rest) covered best =
     (let new_coverage = set (snd entry) - covered
      in if card (snd best) < card new_coverage
         then best_scan rest covered (Some (fst entry), new_coverage)
         else best_scan rest covered best)"

text \<open>
  Lines 130 to 142, one iteration of the \<^verbatim>\<open>while\<close> loop on the state
  (\<^verbatim>\<open>item_materials_dict_copy\<close>, \<^verbatim>\<open>covered_materials\<close>, \<^verbatim>\<open>selected_entities\<close>). With no
  best entity, \<^verbatim>\<open>int(None)\<close> raises \<^verbatim>\<open>TypeError\<close>.
\<close>

type_synonym cover_state = "catalog \<times> int set \<times> int list"

definition greedy_step :: "cover_state \<Rightarrow> py_error + cover_state" where
  "greedy_step st =
     (case st of (pool, covered, selected) \<Rightarrow>
        (case best_scan pool covered (None, {}) of
           (None, best_coverage) \<Rightarrow> Inl TypeError
         | (Some best_entity, best_coverage) \<Rightarrow>
             Inr (AList.delete best_entity pool, covered \<union> best_coverage, selected @ [best_entity])))"

text \<open>
  The \<^verbatim>\<open>while\<close> loop of line 129. Every iteration that does not raise deletes an entry of
  the dict, which is why the loop ends.
\<close>

lemma best_scan_entity:
  "best_scan pool covered best = (Some e, cov) \<Longrightarrow> fst best = Some e \<or> e \<in> fst ` set pool"
proof (induction pool arbitrary: best)
  case Nil
  then show ?case by simp
next
  case (Cons entry pool)
  show ?case
  proof (cases "card (snd best) < card (set (snd entry) - covered)")
    case True
    with Cons.prems have "best_scan pool covered (Some (fst entry), set (snd entry) - covered) = (Some e, cov)"
      by (simp add: Let_def)
    from Cons.IH [OF this] show ?thesis by auto
  next
    case False
    with Cons.prems have "best_scan pool covered best = (Some e, cov)"
      by (simp add: Let_def)
    from Cons.IH [OF this] show ?thesis by auto
  qed
qed

lemma delete_shorter:
  assumes "e \<in> fst ` set pool"
  shows "length (AList.delete e pool) < length pool"
proof -
  from assms obtain ms where "(e, ms) \<in> set pool" by auto
  then have "length (filter (\<lambda>(k, v). e \<noteq> k) pool) < length pool"
    by (rule length_filter_less) simp
  then show ?thesis by (simp add: AList.delete_eq)
qed

lemma greedy_step_shrinks:
  assumes "greedy_step st = Inr st'"
  shows "length (fst st') < length (fst st)"
proof -
  obtain pool covered selected where st: "st = (pool, covered, selected)"
    by (cases st) auto
  from assms st obtain e cov where scan: "best_scan pool covered (None, {}) = (Some e, cov)"
    and st': "st' = (AList.delete e pool, covered \<union> cov, selected @ [e])"
    by (auto simp: greedy_step_def split: prod.splits option.splits)
  from best_scan_entity [OF scan] have "e \<in> fst ` set pool" by simp
  then show ?thesis using st st' by (simp add: delete_shorter)
qed

function greedy_loop :: "int set \<Rightarrow> cover_state \<Rightarrow> py_error + int list" where
  "greedy_loop universe st =
     (if fst (snd st) = universe then Inr (snd (snd st))
      else (case greedy_step st of
              Inl err \<Rightarrow> Inl err
            | Inr st' \<Rightarrow> greedy_loop universe st'))"
  by pat_completeness auto
termination
  by (relation "measure (\<lambda>(universe, st). length (fst st))") (auto dest: greedy_step_shrinks)

declare greedy_loop.simps [simp del]

definition find_min_entity_needed :: "catalog \<Rightarrow> py_error + int list" where
  "find_min_entity_needed item_materials_dict =
     greedy_loop (all_materials item_materials_dict) (item_materials_dict, {}, [])"

text \<open>
  \<open>iter_state catalog n st\<close>: the loop of \<open>find_min_entity_needed catalog\<close> reaches the
  head of the \<^verbatim>\<open>while\<close> in state \<open>st\<close> after \<open>n\<close> iterations.
\<close>

inductive iter_state :: "catalog \<Rightarrow> nat \<Rightarrow> cover_state \<Rightarrow> bool" for item_materials_dict where
  start: "iter_state item_materials_dict 0 (item_materials_dict, {}, [])"
| iteration: "iter_state item_materials_dict n st
     \<Longrightarrow> fst (snd st) \<noteq> all_materials item_materials_dict
     \<Longrightarrow> greedy_step st = Inr st'
     \<Longrightarrow> iter_state item_materials_dict (Suc n) st'"

code_pred iter_state .

text \<open>The material list of an entity in the catalog (empty for an id that is not a key).\<close>

definition materials_of :: "catalog \<Rightarrow> int \<Rightarrow> int set" where
  "materials_of item_materials_dict entity =
     (case map_of item_materials_dict entity of None \<Rightarrow> {} | Some materials \<Rightarrow> set materials)"

section \<open>\<^verbatim>\<open>calculate_selected_materials\<close>: the request list\<close>

text \<open>
  The descriptors of \<^verbatim>\<open>self.avatars\<close> and \<^verbatim>\<open>self.weapons\<close> with the keys the requests are
  built from, and the request dicts of \<^verbatim>\<open>_generate_item_data\<close>. A skill of a request is
  (\<^verbatim>\<open>id\<close>, \<^verbatim>\<open>level_current\<close>, \<^verbatim>\<open>level_target\<close>); the \<^verbatim>\<open>weapon\<close> of a character request is
  \<open>None\<close> for the empty dict.
\<close>

record avatar_info =
  avatar_id :: int
  element_attr_id :: int
  skill_list :: "int list"

record weapon_info =
  weapon_id :: int
  max_level :: int

record weapon_request =
  w_id :: int
  w_level_current :: int
  w_level_target :: int

record avatar_request =
  r_avatar_id :: int
  r_avatar_level_current :: int
  r_avatar_level_target :: int
  r_element_attr_id :: int
  r_skill_list :: "(int \<times> int \<times> int) list"
  r_weapon :: "weapon_request option"

datatype request = Character avatar_request | WeaponOnly weapon_request

definition generate_character :: "avatar_info \<Rightarrow> avatar_request" where
  "generate_character a =
     \<lparr>r_avatar_id = avatar_id a, r_avatar_level_current = 1, r_avatar_level_target = 90,
      r_element_attr_id = element_attr_id a,
      r_skill_list = map (\<lambda>group_id. (group_id, 1, 10)) (skill_list a),
      r_weapon = None\<rparr>"

definition generate_weapon :: "weapon_info \<Rightarrow> weapon_request" where
  "generate_weapon w = \<lparr>w_id = weapon_id w, w_level_current = 1, w_level_target = max_level w\<rparr>"

text \<open>
  Lines 200 and 201. \<^verbatim>\<open>[d] * count\<close> holds \<open>count\<close> references to one dict, so
  \<^verbatim>\<open>avatar_body\<close> is a list of references: positions in the list \<open>objects\<close> of the dicts
  that were generated, one per selected character. The store through a reference changes
  the dict for every position that shares it.
\<close>

definition attach_weapons ::
  "avatar_request list \<Rightarrow> (nat \<times> weapon_request) list \<Rightarrow> avatar_request list" where
  "attach_weapons objects pairs =
     foldl (\<lambda>objs p. objs[fst p := (objs ! fst p)\<lparr>r_weapon := Some (snd p)\<rparr>]) objects pairs"

text \<open>
  Lines 188 to 207, the value of \<^verbatim>\<open>calculate_list\<close>. \<^verbatim>\<open>[d] * count\<close> is empty for a
  \<open>count\<close> that is not positive.
\<close>

definition calculate_list ::
  "avatar_info list \<Rightarrow> weapon_info list \<Rightarrow> int list \<Rightarrow> int \<Rightarrow> request list" where
  "calculate_list avatars weapons entities count =
     (let avatars_to_select = filter (\<lambda>a. avatar_id a \<in> set entities) avatars;
          weapons_to_select = filter (\<lambda>w. weapon_id w \<in> set entities) weapons;
          objects = map generate_character avatars_to_select;
          avatar_body = concat (map (replicate (nat count)) [0..<length objects]);
          weapon_body = concat (map (\<lambda>w. replicate (nat count) (generate_weapon w)) weapons_to_select);
          len_avatars = length avatar_body;
          len_weapons = length weapon_body;
          objects' = attach_weapons objects (zip avatar_body weapon_body)
      in if len_weapons < len_avatars
         then map (\<lambda>r. Character (objects' ! r)) (avatar_body @ drop len_weapons avatar_body)
         else map (\<lambda>r. Character (objects' ! r)) avatar_body
              @ map WeaponOnly (drop len_avatars weapon_body))"

text \<open>The selected characters and weapons, lines 188 and 189.\<close>

definition num_chars :: "avatar_info list \<Rightarrow> int list \<Rightarrow> nat" where
  "num_chars avatars entities = length (filter (\<lambda>a. avatar_id a \<in> set entities) avatars)"

definition num_weapons :: "weapon_info list \<Rightarrow> int list \<Rightarrow> nat" where
  "num_weapons weapons entities = length (filter (\<lambda>w. weapon_id w \<in> set entities) weapons)"

section \<open>\<^verbatim>\<open>_req\<close>: the response of the remote service\<close>


record response =
  status_code :: nat
  body :: "json option"






section \<open>Redistribution on a chain of three\<close>

lemmas truediv_eval =
  py_int_truediv_def truediv_trunc_def binade_def round_half_even_def bit_length.simps Let_def

lemmas chain_eval = chain_body_def refresh_def search_again_def adjust_def

lemma truediv_30_3: "py_int_truediv 30 3 = Inr 10"
  by (simp add: truediv_eval)

text \<open>
  \<^verbatim>\<open>int(a / b)\<close> is not floor division: the quotient is rounded to a double first.
  \<^verbatim>\<open>int(10 ** 17 / 3)\<close> is 33333333333333332 in Python, one less than \<^verbatim>\<open>10 ** 17 // 3\<close>,
  and \<^verbatim>\<open>int((3 ** 40 - 1) / 3 ** 40)\<close> is 1.
\<close>

lemma truediv_rounds_down: "py_int_truediv 100000000000000000 3 = Inr 33333333333333332"
  by (simp add: truediv_eval)

lemma truediv_rounds_up: "py_int_truediv (3 ^ 40 - 1) (3 ^ 40) = Inr 1"
  by (simp add: truediv_eval)

text \<open>
  C7. On the chain \<open>[A, B, C]\<close> with \<open>A\<close> (extra 30, num 100), \<open>B\<close> (extra 0, num 50) and
  \<open>C\<close> (extra 0, num 20), whatever the ids, \<open>process_item_iterative\<close> raises nothing and
  changes one field: the \<open>num\<close> of \<open>B\<close>, the first item after \<open>A\<close> with no extra, at
  distance 1, becomes \<open>50 - int(30 / 3) = 40\<close>. \<open>A\<close> and \<open>C\<close> keep their \<open>num\<close>.
\<close>

theorem three_chain_redistribution:
  "process_item_iterative [[''A'', ''B'', ''C'']]
     [(''A'', \<lparr>good = ''A'', item_id = ia, extra = 30, num = 100\<rparr>),
      (''B'', \<lparr>good = ''B'', item_id = ib, extra = 0, num = 50\<rparr>),
      (''C'', \<lparr>good = ''C'', item_id = ic, extra = 0, num = 20\<rparr>)]
   = ([(''A'', \<lparr>good = ''A'', item_id = ia, extra = 30, num = 100\<rparr>),
       (''B'', \<lparr>good = ''B'', item_id = ib, extra = 0, num = 40\<rparr>),
       (''C'', \<lparr>good = ''C'', item_id = ic, extra = 0, num = 20\<rparr>)], None)"
  by (simp add: chain_eval truediv_30_3)

theorem three_chain_redistribution_witness:
  "process_item_iterative [[''A'', ''B'', ''C'']]
     [(''A'', \<lparr>good = ''A'', item_id = 104301, extra = 30, num = 100\<rparr>),
      (''B'', \<lparr>good = ''B'', item_id = 104302, extra = 0, num = 50\<rparr>),
      (''C'', \<lparr>good = ''C'', item_id = 104303, extra = 0, num = 20\<rparr>)]
   = ([(''A'', \<lparr>good = ''A'', item_id = 104301, extra = 30, num = 100\<rparr>),
       (''B'', \<lparr>good = ''B'', item_id = 104302, extra = 0, num = 40\<rparr>),
       (''C'', \<lparr>good = ''C'', item_id = 104303, extra = 0, num = 20\<rparr>)], None)"
  by (rule three_chain_redistribution)

section \<open>Tiers\<close>

lemma chunked_concat: "(0::nat) < n \<Longrightarrow> concat (chunked n xs) = xs"
proof (induction n xs rule: chunked.induct)
  case (1 n xs)
  then show ?case by (subst chunked.simps) auto
qed

lemma classify_filter:
  "classify xs groups =
     (fst groups @ filter (\<lambda>it. 114000 < item_id it \<or> (104100 < item_id it \<and> item_id it < 104300)) xs,
      snd groups @ filter (\<lambda>it. 104300 < item_id it \<and> item_id it < 113000 \<and> item_id it \<noteq> 104319) xs)"
  by (induction xs arbitrary: groups) auto

lemma set_chunk_names:
  fixes xs :: "item list"
  assumes "(0::nat) < n"
  shows "set (concat (map (\<lambda>chunk. rev (map good chunk)) (chunked n xs))) = good ` set xs"
proof -
  have "set (concat (map (\<lambda>chunk. rev (map good chunk)) (chunked n xs)))
      = good ` set (concat (chunked n xs))"
    by auto
  with assms show ?thesis by (simp add: chunked_concat)
qed

lemma set_concat_rev: "set (concat (rev xss)) = set (concat xss)"
  by simp

lemma set_group_names:
  "set (concat (materials_group_to_check groups)) = good ` (set (fst groups) \<union> set (snd groups))"
proof -
  have "set (concat (materials_group_to_check groups))
      = set (concat (map (\<lambda>chunk. rev (map good chunk)) (chunked 4 (fst groups))))
        \<union> set (concat (map (\<lambda>chunk. rev (map good chunk)) (chunked 3 (snd groups))))"
    unfolding materials_group_to_check_def set_concat_rev by simp
  also have "\<dots> = good ` set (fst groups) \<union> good ` set (snd groups)"
    by (simp only: set_chunk_names [of 4] set_chunk_names [of 3] zero_less_numeral)
  finally show ?thesis by (simp add: image_Un)
qed

text \<open>An inventory with the Crown of Insight, a talent book, an ascension gem and Mora.\<close>

definition ex_items :: "item list" where
  "ex_items = [\<lparr>good = ''Crown'', item_id = 104319, extra = 0, num = 1\<rparr>,
               \<lparr>good = ''Book'', item_id = 104301, extra = 0, num = 2\<rparr>,
               \<lparr>good = ''Gem'', item_id = 104101, extra = 0, num = 3\<rparr>,
               \<lparr>good = ''Mora'', item_id = 202, extra = 0, num = 4\<rparr>]"

text \<open>
  C6. The loop of lines 264 to 274 puts an item in \<^verbatim>\<open>four_tiers\<close> exactly when its id is
  above 114000 or strictly between 104100 and 104300, and in \<^verbatim>\<open>three_tiers\<close> exactly when
  its id is strictly between 104300 and 113000 and is not 104319; both lists keep the
  order of the items. The names in the chains handed to \<open>process_item_iterative\<close> are the
  names of these items and no others: an item with any other id, 104319 among them, is in
  no chain.
\<close>

theorem tier_classification:
  "classify items ([], []) =
     (filter (\<lambda>it. 114000 < item_id it \<or> (104100 < item_id it \<and> item_id it < 104300)) items,
      filter (\<lambda>it. 104300 < item_id it \<and> item_id it < 113000 \<and> item_id it \<noteq> 104319) items)
   \<and> set (concat (materials_group_to_check (classify items ([], [])))) =
       good ` {it \<in> set items.
                 114000 < item_id it \<or> (104100 < item_id it \<and> item_id it < 104300)
                 \<or> (104300 < item_id it \<and> item_id it < 113000 \<and> item_id it \<noteq> 104319)}"
proof -
  have c: "classify items ([], []) =
     (filter (\<lambda>it. 114000 < item_id it \<or> (104100 < item_id it \<and> item_id it < 104300)) items,
      filter (\<lambda>it. 104300 < item_id it \<and> item_id it < 113000 \<and> item_id it \<noteq> 104319) items)"
    by (simp add: classify_filter)
  have "set (concat (materials_group_to_check (classify items ([], [])))) =
       good ` {it \<in> set items.
                 114000 < item_id it \<or> (104100 < item_id it \<and> item_id it < 104300)
                 \<or> (104300 < item_id it \<and> item_id it < 113000 \<and> item_id it \<noteq> 104319)}"
    unfolding set_group_names c by (rule arg_cong [where f = "image good"]) auto
  with c show ?thesis by simp
qed

theorem tier_classification_witness:
  "classify ex_items ([], []) =
     ([\<lparr>good = ''Gem'', item_id = 104101, extra = 0, num = 3\<rparr>],
      [\<lparr>good = ''Book'', item_id = 104301, extra = 0, num = 2\<rparr>])
   \<and> set (concat (materials_group_to_check (classify ex_items ([], [])))) = {''Gem'', ''Book''}"
  using tier_classification [of ex_items] unfolding set_filter [symmetric]
  by (simp add: ex_items_def insert_commute)

section \<open>A negative count\<close>

lemmas char_eval = is_lower_def is_upper_def is_digit_def is_word_def upper_def lower_def
  is_separator_def strip_quotes_def good_name_def char_of_def bit_0

text \<open>
  Two talent books of one chain: 30 spare copies of the lower one, and 5 of the higher one
  with none to spare.
\<close>

definition ex_materials :: "material list" where
  "ex_materials =
     [\<lparr>m_id = 104301, m_name = ''teachings of freedom'', m_num = 0, m_lack_num = 0, m_extra = 30\<rparr>,
      \<lparr>m_id = 104302, m_name = ''guide to freedom'', m_num = 5, m_lack_num = 0, m_extra = 0\<rparr>]"

lemma gn_teachings: "good_name ''teachings of freedom'' = ''TeachingsOfFreedom''"
  by (simp add: char_eval)

lemma gn_guide: "good_name ''guide to freedom'' = ''GuideToFreedom''"
  by (simp add: char_eval)

lemma ex_cleaned:
  "foldl clean_step [] ex_materials =
     [(''TeachingsOfFreedom'', \<lparr>good = ''TeachingsOfFreedom'', item_id = 104301, extra = 30, num = 30\<rparr>),
      (''GuideToFreedom'', \<lparr>good = ''GuideToFreedom'', item_id = 104302, extra = 0, num = 5\<rparr>)]"
  by (simp add: ex_materials_def clean_step_def gn_teachings gn_guide Let_def)

lemma ex_clean_up:
  "clean_up_materials ex_materials =
     Inr [(''TeachingsOfFreedom'', \<lparr>good = ''TeachingsOfFreedom'', item_id = 104301, extra = 30, num = 30\<rparr>),
          (''GuideToFreedom'', \<lparr>good = ''GuideToFreedom'', item_id = 104302, extra = 0, num = - 5\<rparr>)]"
  by (simp add: clean_up_materials_def ex_cleaned sorted_cleaned_items_def
      materials_group_to_check_def chunked.simps chain_eval truediv_30_3)

text \<open>
  C10. \<open>num\<close> is not clamped at zero during redistribution. There is a list of
  consumption records, all of whose counts are non-negative, for which every item has a
  non-negative \<open>num\<close> after the deduplication of lines 244 to 256, that is before
  \<open>process_item_iterative\<close> runs, and for which \<open>clean_up_materials\<close> returns an
  inventory where an item has a negative \<open>num\<close>. For \<open>ex_materials\<close> the higher book
  enters the redistribution with \<open>num = 5\<close> and leaves it with \<open>5 - int(30 / 3) = - 5\<close>
  (lemmas \<open>ex_cleaned\<close> and \<open>ex_clean_up\<close>).
\<close>

theorem negative_num_exported:
  "\<exists>materials cleaned name before it.
     list_all (\<lambda>m. 0 \<le> m_num m \<and> 0 \<le> m_lack_num m \<and> 0 \<le> m_extra m) materials
     \<and> list_all (\<lambda>entry. 0 \<le> num (snd entry)) (foldl clean_step [] materials)
     \<and> map_of (foldl clean_step [] materials) name = Some before
     \<and> 0 \<le> num before
     \<and> clean_up_materials materials = Inr cleaned
     \<and> map_of cleaned name = Some it
     \<and> num it < 0"
proof -
  have "list_all (\<lambda>m. 0 \<le> m_num m \<and> 0 \<le> m_lack_num m \<and> 0 \<le> m_extra m) ex_materials"
    by (simp add: ex_materials_def)
  moreover have "list_all (\<lambda>entry. 0 \<le> num (snd entry)) (foldl clean_step [] ex_materials)"
    by (simp add: ex_cleaned)
  moreover have "map_of (foldl clean_step [] ex_materials) ''GuideToFreedom''
      = Some \<lparr>good = ''GuideToFreedom'', item_id = 104302, extra = 0, num = 5\<rparr>"
    by (simp add: ex_cleaned)
  moreover have "0 \<le> num \<lparr>good = ''GuideToFreedom'', item_id = 104302, extra = 0, num = 5\<rparr>"
    by simp
  moreover have "map_of [(''TeachingsOfFreedom'', \<lparr>good = ''TeachingsOfFreedom'', item_id = 104301, extra = 30, num = 30\<rparr>),
          (''GuideToFreedom'', \<lparr>good = ''GuideToFreedom'', item_id = 104302, extra = 0, num = - 5\<rparr>)]
        ''GuideToFreedom''
      = Some \<lparr>good = ''GuideToFreedom'', item_id = 104302, extra = 0, num = - 5\<rparr>"
    by simp
  moreover have "num \<lparr>good = ''GuideToFreedom'', item_id = 104302, extra = 0, num = - 5\<rparr> < 0"
    by simp
  ultimately show ?thesis using ex_clean_up by blast
qed

section \<open>Normalizing a normalized name\<close>

lemma of_char_upper:
  assumes "is_lower c"
  shows "(of_char (upper c) :: nat) = of_char c - 32"
proof -
  from assms have "(of_char c :: nat) - 32 < 256" unfolding is_lower_def by arith
  with assms show ?thesis by (simp add: upper_def)
qed

lemma of_char_lower:
  assumes "is_upper c"
  shows "(of_char (lower c) :: nat) = of_char c + 32"
proof -
  from assms have "(of_char c :: nat) + 32 < 256" unfolding is_upper_def by arith
  with assms show ?thesis by (simp add: lower_def)
qed

lemma upper_not_lower: "is_lower c \<Longrightarrow> \<not> is_lower (upper c)"
  using of_char_upper [of c] unfolding is_lower_def by arith

lemma lower_not_upper: "is_upper c \<Longrightarrow> \<not> is_upper (lower c)"
  using of_char_lower [of c] unfolding is_upper_def by arith

lemma upper_upper: "upper (upper c) = upper c"
proof (cases "is_lower c")
  case True
  from upper_not_lower [OF this] show ?thesis by (simp add: upper_def [of "upper c"])
next
  case False
  then show ?thesis by (simp add: upper_def)
qed

lemma lower_lower: "lower (lower c) = lower c"
proof (cases "is_upper c")
  case True
  from lower_not_upper [OF this] show ?thesis by (simp add: lower_def [of "lower c"])
next
  case False
  then show ?thesis by (simp add: lower_def)
qed

lemma is_word_upper:
  assumes "is_word c"
  shows "is_word (upper c)"
proof (cases "is_lower c")
  case True
  with of_char_upper [OF True] have "is_upper (upper c)"
    unfolding is_upper_def is_lower_def by arith
  then show ?thesis by (simp add: is_word_def)
next
  case False
  with assms show ?thesis by (simp add: upper_def)
qed

lemma is_word_lower:
  assumes "is_word c"
  shows "is_word (lower c)"
proof (cases "is_upper c")
  case True
  with of_char_lower [OF True] have "is_lower (lower c)"
    unfolding is_upper_def is_lower_def by arith
  then show ?thesis by (simp add: is_word_def)
next
  case False
  with assms show ?thesis by (simp add: lower_def)
qed

lemma capitalize_capitalize: "capitalize (capitalize s) = capitalize s"
  by (cases s) (simp_all add: upper_upper lower_lower)

lemma filter_word_capitalize: "list_all is_word s \<Longrightarrow> filter is_word (capitalize s) = capitalize s"
  by (cases s) (auto simp: is_word_upper is_word_lower list_all_iff)

lemma word_not_quote: "is_word c \<Longrightarrow> (of_char c :: nat) \<noteq> 34"
  by (auto simp: is_word_def is_lower_def is_upper_def is_digit_def)

lemma word_not_separator: "is_word c \<Longrightarrow> \<not> is_separator c"
  by (auto simp: is_word_def is_lower_def is_upper_def is_digit_def is_separator_def)

lemma dropWhile_word: "list_all is_word s \<Longrightarrow> dropWhile (\<lambda>c. (of_char c :: nat) = 34) s = s"
  by (cases s) (simp_all add: word_not_quote)

lemma strip_quotes_word: "list_all is_word s \<Longrightarrow> strip_quotes s = s"
proof -
  assume w: "list_all is_word s"
  then have "list_all is_word (rev s)" by (simp add: list_all_iff)
  with w show ?thesis by (simp add: strip_quotes_def dropWhile_word)
qed

lemma re_split_word: "list_all is_word s \<Longrightarrow> re_split s = [s]"
  by (induction s) (simp_all add: word_not_separator)

lemma good_name_words: "list_all is_word (good_name raw)"
  by (simp add: good_name_def list_all_iff)

lemma good_name_word: "list_all is_word s \<Longrightarrow> good_name s = capitalize s"
  by (simp add: good_name_def strip_quotes_word re_split_word filter_word_capitalize)

lemma words_capitalize: "list_all is_word s \<Longrightarrow> list_all is_word (capitalize s)"
  by (cases s) (auto simp: is_word_upper is_word_lower list_all_iff)

lemma gn_teachings2: "good_name ''TeachingsOfFreedom'' = ''Teachingsoffreedom''"
  by (simp add: char_eval)

text \<open>
  C3, as the claim states it, fails: the normalized name of \<^verbatim>\<open>teachings of freedom\<close> is
  \<^verbatim>\<open>TeachingsOfFreedom\<close>, a single word, so normalizing it again lowers every letter but
  the first and gives \<^verbatim>\<open>Teachingsoffreedom\<close>.
\<close>

theorem renormalize_counterexample:
  "good_name (good_name ''teachings of freedom'') \<noteq> good_name ''teachings of freedom''"
  by (simp add: gn_teachings gn_teachings2)

text \<open>
  C3, amended. For an ASCII raw name, normalizing a normalized name is \<^verbatim>\<open>str.capitalize\<close>
  on it: the result has the first character in upper case and the others in lower case.
  So a normalized name is a fixed point exactly when it already has that form, and from
  the second application on normalization changes nothing.
\<close>

theorem renormalize:
  assumes "ascii_name raw"
  shows "good_name (good_name raw) = capitalize (good_name raw)
       \<and> good_name (good_name (good_name raw)) = good_name (good_name raw)"
proof -
  have 1: "good_name (good_name raw) = capitalize (good_name raw)"
    by (rule good_name_word [OF good_name_words])
  have "list_all is_word (capitalize (good_name raw))"
    by (rule words_capitalize [OF good_name_words])
  then have "good_name (capitalize (good_name raw)) = capitalize (capitalize (good_name raw))"
    by (rule good_name_word)
  with 1 show ?thesis by (simp add: capitalize_capitalize)
qed

theorem renormalize_witness:
  "ascii_name ''teachings of freedom''
   \<and> good_name ''TeachingsOfFreedom'' = capitalize ''TeachingsOfFreedom''
   \<and> good_name ''Teachingsoffreedom'' = ''Teachingsoffreedom''"
proof -
  have a: "ascii_name ''teachings of freedom''"
    by (simp add: ascii_name_def)
  note r = renormalize [OF a]
  have "good_name (good_name ''teachings of freedom'') = capitalize (good_name ''teachings of freedom'')"
    and "good_name (good_name (good_name ''teachings of freedom'')) = good_name (good_name ''teachings of freedom'')"
    by (rule r [THEN conjunct1], rule r [THEN conjunct2])
  then have "good_name ''TeachingsOfFreedom'' = capitalize ''TeachingsOfFreedom''"
    and "good_name ''Teachingsoffreedom'' = ''Teachingsoffreedom''"
    unfolding gn_teachings gn_teachings2 by this+
  with a show ?thesis by (simp only: simp_thms)
qed

section \<open>The length of the request list\<close>

lemma length_concat_replicate:
  "length (concat (map (\<lambda>x. replicate k (f x)) xs)) = k * length xs"
  by (induction xs) simp_all

lemma length_attach_weapons: "length (attach_weapons objects pairs) = length objects"
  unfolding attach_weapons_def by (induction pairs arbitrary: objects) simp_all

lemma length_calculate_list:
  "length (calculate_list avatars weapons entities count) =
     (if nat count * num_weapons weapons entities < nat count * num_chars avatars entities
      then nat count * num_chars avatars entities
           + (nat count * num_chars avatars entities - nat count * num_weapons weapons entities)
      else nat count * num_weapons weapons entities)"
proof -
  define la where "la = nat count * num_chars avatars entities"
  define lw where "lw = nat count * num_weapons weapons entities"
  have a: "length (concat (map (replicate (nat count)) [0..<n])) = nat count * n" for n
    using length_concat_replicate [of "nat count" "\<lambda>x. x" "[0..<n]"] by simp
  have "length (calculate_list avatars weapons entities count) =
      (if lw < la then la + (la - lw) else la + (lw - la))"
    unfolding la_def lw_def
    by (simp add: calculate_list_def Let_def a length_concat_replicate num_chars_def num_weapons_def
        del: mult_less_cancel1)
  also have "\<dots> = (if lw < la then la + (la - lw) else lw)"
    by simp
  finally show ?thesis unfolding la_def lw_def .
qed

text \<open>One character and three weapons, all selected.\<close>

definition ex_avatars :: "avatar_info list" where
  "ex_avatars = [\<lparr>avatar_id = 10000002, element_attr_id = 4, skill_list = [231, 232, 239]\<rparr>]"

definition ex_weapons :: "weapon_info list" where
  "ex_weapons = [\<lparr>weapon_id = 11101, max_level = 70\<rparr>, \<lparr>weapon_id = 12101, max_level = 70\<rparr>,
                 \<lparr>weapon_id = 13101, max_level = 70\<rparr>]"

definition ex_entities :: "int list" where
  "ex_entities = [10000002, 11101, 12101, 13101]"

lemma ex_selected:
  "num_chars ex_avatars ex_entities = 1" "num_weapons ex_weapons ex_entities = 3"
  by (simp_all add: num_chars_def num_weapons_def ex_avatars_def ex_weapons_def ex_entities_def)

text \<open>
  C2, as the claim states it, fails when more weapons than characters are selected. With
  \<open>count = 2\<close>, one character and three weapons the list has the 2 character requests
  and the 4 unpaired weapon requests, 6 in all, and the claimed length is
  \<open>2 * 3 + 2 * 2 = 10\<close>.
\<close>

theorem request_count_counterexample:
  "int (length (calculate_list ex_avatars ex_weapons ex_entities 2)) \<noteq>
     2 * max (int (num_chars ex_avatars ex_entities)) (int (num_weapons ex_weapons ex_entities))
     + 2 * \<bar>int (num_chars ex_avatars ex_entities) - int (num_weapons ex_weapons ex_entities)\<bar>"
  by (simp add: length_calculate_list ex_selected)

text \<open>
  C2, amended. The list has \<open>count * max(num_chars, num_weapons)\<close> requests, and
  \<open>count * (num_chars - num_weapons)\<close> more only when more characters than weapons are
  selected: then the unpaired characters stand in the list twice (line 205), while unpaired
  weapons are appended once (line 207). A \<open>count\<close> below zero counts as zero.
\<close>

theorem request_count:
  "length (calculate_list avatars weapons entities count) =
     nat count * max (num_chars avatars entities) (num_weapons weapons entities)
     + (if num_weapons weapons entities < num_chars avatars entities
        then nat count * (num_chars avatars entities - num_weapons weapons entities)
        else 0)"
  by (simp add: length_calculate_list diff_mult_distrib2 max_def)

theorem request_count_witness:
  "length (calculate_list ex_avatars ex_weapons ex_entities 2) = 6"
  using request_count [of ex_avatars ex_weapons ex_entities 2] by (simp add: ex_selected)

section \<open>The outcome of a request\<close>




section \<open>The greedy cover\<close>

text \<open>
  The invariant of the \<^verbatim>\<open>while\<close> loop after \<open>n\<close> iterations: the entities left are
  entries of the catalog, an entry that is no longer left has all its materials covered,
  the covered set is the union of the material sets of the selected entities, one entity
  was selected per iteration, and as many entries were deleted.
\<close>

definition cover_inv :: "catalog \<Rightarrow> nat \<Rightarrow> cover_state \<Rightarrow> bool" where
  "cover_inv item_materials_dict n st =
     (set (fst st) \<subseteq> set item_materials_dict
      \<and> (\<forall>entry \<in> set item_materials_dict. entry \<in> set (fst st) \<or> set (snd entry) \<subseteq> fst (snd st))
      \<and> fst (snd st) = \<Union> (materials_of item_materials_dict ` set (snd (snd st)))
      \<and> length (snd (snd st)) = n
      \<and> n + length (fst st) \<le> length item_materials_dict)"

lemma cover_invD:
  assumes "cover_inv catalog n st"
  shows "set (fst st) \<subseteq> set catalog"
    and "\<forall>entry \<in> set catalog. entry \<in> set (fst st) \<or> set (snd entry) \<subseteq> fst (snd st)"
    and "fst (snd st) = \<Union> (materials_of catalog ` set (snd (snd st)))"
    and "length (snd (snd st)) = n"
    and "n + length (fst st) \<le> length catalog"
  using assms unfolding cover_inv_def by blast+

lemma foldl_union:
  "foldl (\<lambda>acc entry. acc \<union> set (snd entry)) acc entries = acc \<union> \<Union> (set ` snd ` set entries)"
  by (induction entries arbitrary: acc) auto

lemma all_materials_eq: "all_materials catalog = \<Union> (set ` snd ` set catalog)"
  by (simp add: all_materials_def foldl_union)

lemma best_scan_origin:
  "best_scan pool covered best = (r, cov) \<Longrightarrow>
     (r, cov) = best \<or> (\<exists>entry \<in> set pool. r = Some (fst entry) \<and> cov = set (snd entry) - covered)"
proof (induction pool arbitrary: best)
  case Nil
  then show ?case by simp
next
  case (Cons entry pool)
  show ?case
  proof (cases "card (snd best) < card (set (snd entry) - covered)")
    case True
    with Cons.prems have "best_scan pool covered (Some (fst entry), set (snd entry) - covered) = (r, cov)"
      by (simp add: Let_def)
    from Cons.IH [OF this] show ?thesis by auto
  next
    case False
    with Cons.prems have "best_scan pool covered best = (r, cov)"
      by (simp add: Let_def)
    from Cons.IH [OF this] show ?thesis by auto
  qed
qed

lemma best_scan_largest:
  "best_scan pool covered best = (r, cov) \<Longrightarrow>
     card (snd best) \<le> card cov \<and> (\<forall>entry \<in> set pool. card (set (snd entry) - covered) \<le> card cov)"
proof (induction pool arbitrary: best)
  case Nil
  then show ?case by simp
next
  case (Cons entry pool)
  show ?case
  proof (cases "card (snd best) < card (set (snd entry) - covered)")
    case True
    with Cons.prems have "best_scan pool covered (Some (fst entry), set (snd entry) - covered) = (r, cov)"
      by (simp add: Let_def)
    from Cons.IH [OF this] True show ?thesis by auto
  next
    case False
    with Cons.prems have "best_scan pool covered best = (r, cov)"
      by (simp add: Let_def)
    from Cons.IH [OF this] False show ?thesis by auto
  qed
qed

lemma uncovered_candidate:
  assumes inv: "cover_inv catalog n st"
    and open_: "fst (snd st) \<noteq> all_materials catalog"
  shows "\<exists>entry \<in> set (fst st). set (snd entry) - fst (snd st) \<noteq> {}"
proof -
  have sub: "fst (snd st) \<subseteq> all_materials catalog"
  proof
    fix m assume "m \<in> fst (snd st)"
    with cover_invD(3) [OF inv] obtain e where "m \<in> materials_of catalog e"
      by auto
    then obtain ms where "map_of catalog e = Some ms" "m \<in> set ms"
      by (auto simp: materials_of_def split: option.splits)
    then have "(e, ms) \<in> set catalog" by (auto dest: map_of_SomeD)
    with \<open>m \<in> set ms\<close> show "m \<in> all_materials catalog"
      by (force simp: all_materials_eq)
  qed
  with open_ obtain m where m: "m \<in> all_materials catalog" "m \<notin> fst (snd st)" by auto
  then obtain entry where entry: "entry \<in> set catalog" "m \<in> set (snd entry)"
    by (auto simp: all_materials_eq)
  with cover_invD(2) [OF inv] m have "entry \<in> set (fst st)"
    by blast
  with entry m show ?thesis by auto
qed

lemma greedy_step_progress:
  assumes dist: "distinct (map fst catalog)"
    and inv: "cover_inv catalog n st"
    and open_: "fst (snd st) \<noteq> all_materials catalog"
  shows "\<exists>st'. greedy_step st = Inr st' \<and> cover_inv catalog (Suc n) st'
           \<and> fst (snd st) \<subset> fst (snd st') \<and> length (fst st') < length (fst st)"
proof -
  obtain pool covered selected where st: "st = (pool, covered, selected)"
    by (cases st) auto
  obtain r cov where scan: "best_scan pool covered (None, {}) = (r, cov)"
    by (cases "best_scan pool covered (None, {})") auto
  from uncovered_candidate [OF inv open_] st obtain entry0
    where entry0: "entry0 \<in> set pool" "set (snd entry0) - covered \<noteq> {}" by auto
  from best_scan_largest [OF scan] entry0 have "card (set (snd entry0) - covered) \<le> card cov"
    by auto
  moreover from entry0 have "0 < card (set (snd entry0) - covered)"
    by (simp add: card_gt_0_iff)
  ultimately have pos: "0 < card cov" by simp
  then have "cov \<noteq> {}" by auto
  with best_scan_origin [OF scan] obtain entry
    where entry: "entry \<in> set pool" "r = Some (fst entry)" "cov = set (snd entry) - covered"
    by auto
  define st' where "st' = (AList.delete (fst entry) pool, covered \<union> cov, selected @ [fst entry])"
  have step: "greedy_step st = Inr st'"
    by (simp add: greedy_step_def st scan entry st'_def)
  from cover_invD(1) [OF inv] st entry have in_cat: "entry \<in> set catalog"
    by auto
  with dist have lookup: "map_of catalog (fst entry) = Some (snd entry)"
    by (cases entry) simp
  then have mats: "materials_of catalog (fst entry) = set (snd entry)"
    by (simp add: materials_of_def)
  have shrink: "length (fst st') < length (fst st)"
    by (rule greedy_step_shrinks [OF step])
  have grow: "fst (snd st) \<subset> fst (snd st')"
    using \<open>cov \<noteq> {}\<close> entry by (auto simp: st st'_def)
  have "cover_inv catalog (Suc n) st'"
    unfolding cover_inv_def
  proof (intro conjI ballI)
    show "set (fst st') \<subseteq> set catalog"
      using cover_invD(1) [OF inv] by (auto simp: st st'_def AList.delete_eq)
  next
    fix other assume other: "other \<in> set catalog"
    show "other \<in> set (fst st') \<or> set (snd other) \<subseteq> fst (snd st')"
    proof (cases "fst other = fst entry")
      case True
      with dist other in_cat have "other = entry"
        by (metis eq_key_imp_eq_value prod.collapse)
      then show ?thesis using entry by (auto simp: st'_def)
    next
      case False
      with cover_invD(2) [OF inv] other show ?thesis
        by (auto simp: st st'_def AList.delete_eq)
    qed
  next
    show "fst (snd st') = \<Union> (materials_of catalog ` set (snd (snd st')))"
      using cover_invD(3) [OF inv] mats entry by (auto simp: st st'_def)
  next
    show "length (snd (snd st')) = Suc n"
      using cover_invD(4) [OF inv] by (simp add: st st'_def)
  next
    show "Suc n + length (fst st') \<le> length catalog"
      using cover_invD(5) [OF inv] shrink by simp
  qed
  with step grow shrink show ?thesis by blast
qed

lemma cover_inv_start: "cover_inv catalog 0 (catalog, {}, [])"
  by (simp add: cover_inv_def)

lemma iter_state_inv:
  assumes "distinct (map fst catalog)" and "iter_state catalog n st"
  shows "cover_inv catalog n st"
  using assms(2)
proof (induction rule: iter_state.induct)
  case start
  show ?case by (rule cover_inv_start)
next
  case (iteration n st st')
  from greedy_step_progress [OF assms(1) iteration.IH iteration.hyps(2)] iteration.hyps(3)
  show ?case by auto
qed

lemma greedy_loop_total:
  assumes "distinct (map fst catalog)" and "cover_inv catalog n st"
  shows "\<exists>selected. greedy_loop (all_materials catalog) st = Inr selected
           \<and> \<Union> (materials_of catalog ` set selected) = all_materials catalog
           \<and> length selected \<le> length catalog"
  using assms(2)
proof (induction "length (fst st)" arbitrary: n st rule: less_induct)
  case less
  show ?case
  proof (cases "fst (snd st) = all_materials catalog")
    case True
    with cover_invD(3,4,5) [OF less.prems] show ?thesis
      by (subst greedy_loop.simps) auto
  next
    case False
    from greedy_step_progress [OF assms(1) less.prems False] obtain st'
      where st': "greedy_step st = Inr st'" "cover_inv catalog (Suc n) st'"
        "length (fst st') < length (fst st)" by blast
    from less.hyps [OF st'(3) st'(2)] False st'(1) show ?thesis
      by (subst greedy_loop.simps) simp
  qed
qed

text \<open>The catalog of three entities with the material sets \<open>{1, 2}\<close>, \<open>{2, 3}\<close>, \<open>{1, 3}\<close>.\<close>

definition ex_catalog :: catalog where
  "ex_catalog = [(10000002, [1, 2]), (10000003, [2, 3]), (11101, [1, 3])]"

lemma ex_all_materials: "all_materials ex_catalog = {1, 2, 3}"
  by (auto simp: all_materials_def ex_catalog_def)

lemma ex_step1:
  "greedy_step (ex_catalog, {}, []) = Inr ([(10000003, [2, 3]), (11101, [1, 3])], {1, 2}, [10000002])"
  by (simp add: greedy_step_def ex_catalog_def Let_def AList.delete_eq)

lemma ex_step2:
  "greedy_step ([(10000003, [2, 3]), (11101, [1, 3])], {1, 2}, [10000002])
     = Inr ([(11101, [1, 3])], {1, 2, 3}, [10000002, 10000003])"
proof -
  have "{2, 3} - {1, 2} = {3::int}" by auto
  moreover have "{1, 3} - {1, 2} = {3::int}" by auto
  moreover have "{1, 2} \<union> {3} = {1, 2, 3::int}" by auto
  ultimately show ?thesis
    by (simp add: greedy_step_def Let_def AList.delete_eq)
qed

lemma ex_find_min: "find_min_entity_needed ex_catalog = Inr [10000002, 10000003]"
proof -
  have ne1: "{} \<noteq> {1, 2, 3::int}" by simp
  have "(3::int) \<in> {1, 2, 3}" and "(3::int) \<notin> {1, 2}" by simp_all
  then have ne2: "{1, 2} \<noteq> {1, 2, 3::int}" by blast
  show ?thesis
    unfolding find_min_entity_needed_def ex_all_materials
    by (subst greedy_loop.simps, simp add: ne1 ex_step1,
        subst greedy_loop.simps, simp add: ne2 ex_step2,
        subst greedy_loop.simps, simp)
qed

text \<open>
  C4. For a catalog (a dict, so with distinct keys) \<open>find_min_entity_needed\<close> returns a
  list of entities, and the union of their material sets is the union of all the material
  sets of the catalog.
\<close>

theorem coverage_complete:
  assumes "distinct (map fst catalog)"
  shows "\<exists>selected. find_min_entity_needed catalog = Inr selected
           \<and> \<Union> (materials_of catalog ` set selected) = \<Union> (set ` snd ` set catalog)"
  using greedy_loop_total [OF assms cover_inv_start]
  by (auto simp: find_min_entity_needed_def all_materials_eq)

theorem coverage_complete_witness:
  "distinct (map fst ex_catalog)
   \<and> find_min_entity_needed ex_catalog = Inr [10000002, 10000003]
   \<and> \<Union> (materials_of ex_catalog ` set [10000002, 10000003]) = \<Union> (set ` snd ` set ex_catalog)"
proof -
  have d: "distinct (map fst ex_catalog)" by (simp add: ex_catalog_def)
  from coverage_complete [OF d] obtain selected
    where sel: "find_min_entity_needed ex_catalog = Inr selected"
      and u: "\<Union> (materials_of ex_catalog ` set selected) = \<Union> (set ` snd ` set ex_catalog)"
    by blast
  from sel ex_find_min have "selected = [10000002, 10000003]" by simp
  with u d ex_find_min show ?thesis by blast
qed

text \<open>
  C5. For a catalog with distinct keys the loop ends and returns after at most
  \<open>|catalog|\<close> iterations: \<open>n \<le> |catalog|\<close> at every head of the loop reached after
  \<open>n\<close> iterations, and one entity is selected per iteration. Whenever the covered set
  differs from the universe there, the iteration raises nothing, the covered set grows
  strictly, the candidate pool shrinks strictly, and some candidate left has a material
  that is not covered.
\<close>

theorem greedy_terminates:
  assumes "distinct (map fst catalog)"
  shows "(\<exists>selected. find_min_entity_needed catalog = Inr selected \<and> length selected \<le> length catalog)
       \<and> (\<forall>n st. iter_state catalog n st \<longrightarrow>
            n \<le> length catalog
            \<and> (fst (snd st) \<noteq> all_materials catalog \<longrightarrow>
                 (\<exists>st'. greedy_step st = Inr st'
                    \<and> fst (snd st) \<subset> fst (snd st')
                    \<and> length (fst st') < length (fst st)
                    \<and> (\<exists>entry \<in> set (fst st). set (snd entry) - fst (snd st) \<noteq> {}))))"
proof (intro conjI allI impI)
  from greedy_loop_total [OF assms cover_inv_start]
  show "\<exists>selected. find_min_entity_needed catalog = Inr selected \<and> length selected \<le> length catalog"
    by (auto simp: find_min_entity_needed_def)
next
  fix n st assume "iter_state catalog n st"
  from cover_invD(5) [OF iter_state_inv [OF assms this]] show "n \<le> length catalog" by simp
next
  fix n st assume it: "iter_state catalog n st" and open_: "fst (snd st) \<noteq> all_materials catalog"
  note inv = iter_state_inv [OF assms it]
  from greedy_step_progress [OF assms inv open_] uncovered_candidate [OF inv open_]
  show "\<exists>st'. greedy_step st = Inr st'
          \<and> fst (snd st) \<subset> fst (snd st')
          \<and> length (fst st') < length (fst st)
          \<and> (\<exists>entry \<in> set (fst st). set (snd entry) - fst (snd st) \<noteq> {})"
    by blast
qed

theorem greedy_terminates_witness:
  "distinct (map fst ex_catalog)
   \<and> iter_state ex_catalog 0 (ex_catalog, {}, [])
   \<and> {} \<noteq> all_materials ex_catalog
   \<and> 0 \<le> length ex_catalog
   \<and> (\<exists>st'. greedy_step (ex_catalog, {}, []) = Inr st'
         \<and> {} \<subset> fst (snd st')
         \<and> length (fst st') < length ex_catalog)
   \<and> (\<exists>selected. find_min_entity_needed ex_catalog = Inr selected \<and> length selected \<le> length ex_catalog)"
proof -
  have d: "distinct (map fst ex_catalog)" by (simp add: ex_catalog_def)
  have s: "iter_state ex_catalog 0 (ex_catalog, {}, [])" by (rule iter_state.start)
  have o: "{} \<noteq> all_materials ex_catalog" by (simp add: ex_all_materials)
  note t = greedy_terminates [OF d]
  let ?st = "(ex_catalog, {}, []) :: cover_state"
  have o': "fst (snd ?st) \<noteq> all_materials ex_catalog"
    using o by simp
  from t [THEN conjunct2, rule_format, OF s, THEN conjunct2, rule_format, OF o']
  obtain st' where a: "greedy_step ?st = Inr st'"
    and b: "fst (snd ?st) \<subset> fst (snd st')"
    and c: "length (fst st') < length (fst ?st)"
    by (elim exE conjE)
  from b have b': "{} \<subset> fst (snd st')" by (simp only: fst_conv snd_conv)
  from c have c': "length (fst st') < length ex_catalog" by (simp only: fst_conv)
  from a b' c' have "\<exists>st'. greedy_step (ex_catalog, {}, []) = Inr st'
         \<and> {} \<subset> fst (snd st')
         \<and> length (fst st') < length ex_catalog"
    by (intro exI [of _ st'] conjI)
  with d s o t [THEN conjunct1] show ?thesis by blast
qed

section \<open>What the redistribution changes\<close>

text \<open>
  \<open>frame targets gr gr'\<close>: the dict \<open>gr'\<close> has the keys of \<open>gr\<close> in the same order, and
  under every key an item with the same \<open>good\<close>, \<open>id\<close> and \<open>extra\<close>, and with the same
  \<open>num\<close> unless the key is in \<open>targets\<close>.
\<close>

definition frame :: "string set \<Rightarrow> good_result \<Rightarrow> good_result \<Rightarrow> bool" where
  "frame targets gr gr' =
     (map fst gr' = map fst gr
      \<and> (\<forall>name. case map_of gr name of
             None \<Rightarrow> map_of gr' name = None
           | Some it \<Rightarrow>
               (\<exists>it'. map_of gr' name = Some it' \<and> good it' = good it \<and> item_id it' = item_id it
                  \<and> extra it' = extra it \<and> (name \<notin> targets \<longrightarrow> num it' = num it))))"

lemma frame_refl: "frame targets gr gr"
  by (simp add: frame_def split: option.splits)

lemma frame_trans:
  assumes "frame s gr1 gr2" and "frame t gr2 gr3"
  shows "frame (s \<union> t) gr1 gr3"
  unfolding frame_def
proof (intro conjI allI)
  from assms show "map fst gr3 = map fst gr1" by (simp add: frame_def)
next
  fix name
  from assms(1) have 1: "case map_of gr1 name of
             None \<Rightarrow> map_of gr2 name = None
           | Some it \<Rightarrow>
               (\<exists>it'. map_of gr2 name = Some it' \<and> good it' = good it \<and> item_id it' = item_id it
                  \<and> extra it' = extra it \<and> (name \<notin> s \<longrightarrow> num it' = num it))"
    unfolding frame_def by blast
  from assms(2) have 2: "case map_of gr2 name of
             None \<Rightarrow> map_of gr3 name = None
           | Some it \<Rightarrow>
               (\<exists>it'. map_of gr3 name = Some it' \<and> good it' = good it \<and> item_id it' = item_id it
                  \<and> extra it' = extra it \<and> (name \<notin> t \<longrightarrow> num it' = num it))"
    unfolding frame_def by blast
  show "case map_of gr1 name of
             None \<Rightarrow> map_of gr3 name = None
           | Some it \<Rightarrow>
               (\<exists>it'. map_of gr3 name = Some it' \<and> good it' = good it \<and> item_id it' = item_id it
                  \<and> extra it' = extra it \<and> (name \<notin> s \<union> t \<longrightarrow> num it' = num it))"
  proof (cases "map_of gr1 name")
    case None
    with 1 2 show ?thesis by simp
  next
    case (Some it)
    with 1 obtain it2 where it2: "map_of gr2 name = Some it2" "good it2 = good it"
      "item_id it2 = item_id it" "extra it2 = extra it" "name \<notin> s \<longrightarrow> num it2 = num it"
      by auto
    with 2 obtain it3 where "map_of gr3 name = Some it3" "good it3 = good it2"
      "item_id it3 = item_id it2" "extra it3 = extra it2" "name \<notin> t \<longrightarrow> num it3 = num it2"
      by auto
    with it2 Some show ?thesis by simp
  qed
qed

lemma adjust_frame:
  assumes "adjust gr item_list current_index sub_item j = Inr gr'"
  shows "frame {item_list ! j} gr gr'"
proof -
  from assms obtain target d where t: "map_of gr (item_list ! j) = Some target"
    and gr': "gr' = AList.update (item_list ! j) (target\<lparr>num := num target - d\<rparr>) gr"
    by (auto simp: adjust_def split: if_splits option.splits sum.splits)
  from t have "item_list ! j \<in> fst ` set gr"
    by (auto dest: map_of_SomeD intro: rev_image_eqI)
  then have keys: "map fst gr' = map fst gr"
    by (simp add: gr' update_keys)
  have m: "map_of gr' = (map_of gr)(item_list ! j \<mapsto> target\<lparr>num := num target - d\<rparr>)"
    by (simp add: gr' update_conv')
  show ?thesis
    unfolding frame_def
  proof (intro conjI allI)
    show "map fst gr' = map fst gr" by (rule keys)
  next
    fix name
    show "case map_of gr name of
             None \<Rightarrow> map_of gr' name = None
           | Some it \<Rightarrow>
               (\<exists>it'. map_of gr' name = Some it' \<and> good it' = good it \<and> item_id it' = item_id it
                  \<and> extra it' = extra it \<and> (name \<notin> {item_list ! j} \<longrightarrow> num it' = num it))"
      using t by (cases "name = item_list ! j") (auto simp: m split: option.splits)
  qed
qed

lemma chain_body_frame:
  assumes "chain_body item_list current_index sub_item st = Inr st'"
  shows "frame (set_option (chosen_target item_list current_index sub_item st)) (fst st) (fst st')"
proof -
  from assms obtain source where s: "map_of (fst st) sub_item = Some source"
    by (auto simp: chain_body_def split: option.splits)
  show ?thesis
  proof (cases "0 < extra source")
    case False
    with assms s show ?thesis by (simp add: chain_body_def frame_refl)
  next
    case True
    from assms s True obtain r where r: "refresh (fst st) item_list current_index (snd st) = Inr r"
      by (auto simp: chain_body_def split: sum.splits)
    show ?thesis
    proof (cases r)
      case None
      with assms s True r show ?thesis by (auto simp: chain_body_def frame_refl)
    next
      case (Some j)
      with assms s True r have "adjust (fst st) item_list current_index sub_item j = Inr (fst st')"
        by (auto simp: chain_body_def split: sum.splits)
      from adjust_frame [OF this] s True r Some show ?thesis
        by (simp add: chosen_target_def)
    qed
  qed
qed

lemma frame_mono: "frame s gr gr' \<Longrightarrow> s \<subseteq> t \<Longrightarrow> frame t gr gr'"
  using frame_trans [OF _ frame_refl, of s gr gr' "t"] by (simp add: Un_absorb1)

lemma chain_loop_frame:
  "chain_loop item_list rest current_index st = (st', err) \<Longrightarrow>
     frame (set (chain_targets item_list rest current_index st)) (fst st) (fst st')"
proof (induction rest arbitrary: current_index st)
  case Nil
  then show ?case by (simp add: frame_refl)
next
  case (Cons sub_item rest)
  show ?case
  proof (cases "chain_body item_list current_index sub_item st")
    case (Inl e)
    with Cons.prems show ?thesis by (simp add: frame_refl)
  next
    case (Inr st1)
    with Cons.prems have "chain_loop item_list rest (Suc current_index) st1 = (st', err)"
      by simp
    note f = frame_trans [OF chain_body_frame [OF Inr] Cons.IH [OF this]]
    have "set (chain_targets item_list (sub_item # rest) current_index st)
        = set_option (chosen_target item_list current_index sub_item st)
          \<union> set (chain_targets item_list rest (Suc current_index) st1)"
      using Inr by (cases "chosen_target item_list current_index sub_item st") simp_all
    with f show ?thesis by (simp only:)
  qed
qed

lemma process_frame:
  "process_item_iterative item_lists gr = (gr', err) \<Longrightarrow> frame (set (chosen_targets item_lists gr)) gr gr'"
proof (induction item_lists arbitrary: gr)
  case Nil
  then show ?case by (simp add: frame_refl)
next
  case (Cons item_list others)
  obtain st e where loop: "chain_loop item_list item_list 0 (gr, None) = (st, e)"
    by (cases "chain_loop item_list item_list 0 (gr, None)") auto
  from chain_loop_frame [OF loop]
  have f: "frame (set (chain_targets item_list item_list 0 (gr, None))) gr (fst st)" by simp
  show ?case
  proof (cases e)
    case (Some err')
    with Cons.prems loop have "gr' = fst st" by simp
    with f loop Some show ?thesis by (auto intro: frame_mono)
  next
    case None
    with Cons.prems loop have "process_item_iterative others (fst st) = (gr', err)" by simp
    from frame_trans [OF f Cons.IH [OF this]] loop None show ?thesis by simp
  qed
qed

section \<open>The search for the next valid index\<close>

text \<open>
  \<open>cache_ok\<close>: the cached \<^verbatim>\<open>next_valid_index\<close>, when there is one, is a position of the
  chain whose item has \<^verbatim>\<open>extra == 0\<close>. The loop keeps this true, because it never stores
  to \<^verbatim>\<open>extra\<close>; so the condition of line 229 holds at every item with \<^verbatim>\<open>extra > 0\<close>.
\<close>

definition cache_ok :: "good_result \<Rightarrow> string list \<Rightarrow> nat option \<Rightarrow> bool" where
  "cache_ok gr item_list next_valid_index =
     (case next_valid_index of
        None \<Rightarrow> True
      | Some j \<Rightarrow> j < length item_list
          \<and> (\<exists>it. map_of gr (item_list ! j) = Some it \<and> extra it = 0))"

lemma search_again_ok: "cache_ok gr item_list nvi \<Longrightarrow> search_again gr item_list nvi = Inr True"
  by (auto simp: cache_ok_def search_again_def split: option.splits)

lemma search_forward_found:
  "search_forward gr xs i = Inr (Some j) \<Longrightarrow>
     i \<le> j \<and> j < i + length xs \<and> (\<exists>it. map_of gr (xs ! (j - i)) = Some it \<and> extra it = 0)"
proof (induction xs arbitrary: i)
  case Nil
  then show ?case by simp
next
  case (Cons name rest)
  from Cons.prems obtain it where it: "map_of gr name = Some it"
    by (auto split: option.splits)
  show ?case
  proof (cases "extra it = 0")
    case True
    with Cons.prems it show ?thesis by simp
  next
    case False
    with Cons.prems it have "search_forward gr rest (Suc i) = Inr (Some j)" by simp
    from Cons.IH [OF this] show ?thesis by (auto simp: Suc_diff_le)
  qed
qed

lemma search_from_found:
  assumes "search_forward gr (drop (Suc i) item_list) (Suc i) = Inr (Some j)"
  shows "i < j \<and> j < length item_list \<and> (\<exists>it. map_of gr (item_list ! j) = Some it \<and> extra it = 0)"
proof -
  from search_forward_found [OF assms]
  have 1: "Suc i \<le> j" and 2: "j < Suc i + length (drop (Suc i) item_list)"
    and 3: "\<exists>it. map_of gr (drop (Suc i) item_list ! (j - Suc i)) = Some it \<and> extra it = 0"
    by blast+
  from 1 2 have 4: "j < length item_list" by simp
  with 1 have "drop (Suc i) item_list ! (j - Suc i) = item_list ! j" by simp
  with 1 3 4 show ?thesis by simp
qed

lemma search_from_ok:
  "search_forward gr (drop (Suc i) item_list) (Suc i) = Inr r \<Longrightarrow> cache_ok gr item_list r"
  by (cases r) (auto simp: cache_ok_def dest: search_from_found)

lemma adjust_extra:
  assumes "adjust gr item_list current_index sub_item j = Inr gr'"
    and "map_of gr name = Some it" and "extra it = 0"
  shows "\<exists>it'. map_of gr' name = Some it' \<and> extra it' = 0"
proof -
  from assms(1) obtain target d where t: "map_of gr (item_list ! j) = Some target"
    and gr': "gr' = AList.update (item_list ! j) (target\<lparr>num := num target - d\<rparr>) gr"
    by (auto simp: adjust_def split: if_splits option.splits sum.splits)
  show ?thesis
    using assms(2,3) t by (cases "name = item_list ! j") (auto simp: gr' update_conv')
qed

lemma adjust_cache_ok:
  "adjust gr item_list current_index sub_item j = Inr gr' \<Longrightarrow> cache_ok gr item_list nvi
     \<Longrightarrow> cache_ok gr' item_list nvi"
  by (cases nvi) (auto simp: cache_ok_def dest: adjust_extra)

lemma chain_body_rescan:
  assumes "cache_ok gr item_list nvi"
  shows "map_sum id fst (chain_body item_list current_index sub_item (gr, nvi))
       = rescan_body item_list current_index sub_item gr"
  by (auto simp: chain_body_def rescan_body_def refresh_def search_again_ok [OF assms]
      split: option.splits sum.splits)

lemma chain_body_cache_ok:
  assumes ok: "cache_ok gr item_list nvi"
    and body: "chain_body item_list current_index sub_item (gr, nvi) = Inr (gr', nvi')"
  shows "cache_ok gr' item_list nvi'"
proof -
  from body obtain source where s: "map_of gr sub_item = Some source"
    by (auto simp: chain_body_def split: option.splits)
  show ?thesis
  proof (cases "0 < extra source")
    case False
    with body s ok show ?thesis by (simp add: chain_body_def)
  next
    case True
    with body s obtain r
      where r: "search_forward gr (drop (Suc current_index) item_list) (Suc current_index) = Inr r"
      by (auto simp: chain_body_def refresh_def search_again_ok [OF ok] split: sum.splits)
    note rok = search_from_ok [OF r]
    show ?thesis
    proof (cases r)
      case None
      with body s True r show ?thesis
        by (simp add: chain_body_def refresh_def search_again_ok [OF ok] cache_ok_def)
    next
      case (Some j)
      with body s True r have "adjust gr item_list current_index sub_item j = Inr gr'"
        and "nvi' = Some j"
        by (auto simp: chain_body_def refresh_def search_again_ok [OF ok] split: sum.splits)
      with adjust_cache_ok [OF this(1) rok] Some show ?thesis by simp
    qed
  qed
qed

lemma chain_loop_cache_ok:
  "cache_ok (fst st) item_list (snd st) \<Longrightarrow>
     cache_ok (fst (fst (chain_loop item_list rest current_index st))) item_list
       (snd (fst (chain_loop item_list rest current_index st)))"
proof (induction rest arbitrary: current_index st)
  case Nil
  then show ?case by simp
next
  case (Cons sub_item rest)
  show ?case
  proof (cases "chain_body item_list current_index sub_item st")
    case (Inl e)
    with Cons.prems show ?thesis by simp
  next
    case (Inr st1)
    with Cons.prems have "cache_ok (fst st1) item_list (snd st1)"
      using chain_body_cache_ok [of "fst st" item_list "snd st" current_index sub_item "fst st1" "snd st1"]
      by simp
    from Cons.IH [OF this] Inr show ?thesis by simp
  qed
qed

lemma chain_loop_rescan:
  "cache_ok (fst st) item_list (snd st) \<Longrightarrow>
     (fst (fst (chain_loop item_list rest current_index st)), snd (chain_loop item_list rest current_index st))
       = rescan_loop item_list rest current_index (fst st)"
proof (induction rest arbitrary: current_index st)
  case Nil
  then show ?case by simp
next
  case (Cons sub_item rest)
  note eq = chain_body_rescan [OF Cons.prems, of current_index sub_item]
  show ?case
  proof (cases "chain_body item_list current_index sub_item st")
    case (Inl e)
    with eq have "rescan_body item_list current_index sub_item (fst st) = Inl e" by simp
    with Inl show ?thesis by simp
  next
    case (Inr st1)
    with eq have r: "rescan_body item_list current_index sub_item (fst st) = Inr (fst st1)" by simp
    from Inr Cons.prems have "cache_ok (fst st1) item_list (snd st1)"
      using chain_body_cache_ok [of "fst st" item_list "snd st" current_index sub_item "fst st1" "snd st1"]
      by simp
    from Cons.IH [OF this] Inr r show ?thesis by simp
  qed
qed

lemma process_rescan: "process_item_iterative item_lists gr = process_item_rescan item_lists gr"
proof (induction item_lists arbitrary: gr)
  case Nil
  show ?case by simp
next
  case (Cons item_list others)
  have ok: "cache_ok (fst (gr, None)) item_list (snd (gr, None :: nat option))"
    by (simp add: cache_ok_def)
  from chain_loop_rescan [OF ok, of item_list 0]
  have "rescan_loop item_list item_list 0 gr
      = (fst (fst (chain_loop item_list item_list 0 (gr, None))), snd (chain_loop item_list item_list 0 (gr, None)))"
    by simp
  then show ?case
    by (cases "chain_loop item_list item_list 0 (gr, None)") (auto simp: Cons.IH split: option.splits)
qed

lemma rescan_body_no_float: "rescan_body item_list current_index sub_item gr \<noteq> Inl FloatPower"
proof
  assume a: "rescan_body item_list current_index sub_item gr = Inl FloatPower"
  then obtain source where s: "map_of gr sub_item = Some source" and pos: "0 < extra source"
    by (auto simp: rescan_body_def split: option.splits if_splits)
  have nf: "search_forward gr xs i \<noteq> Inl FloatPower" for xs i
    by (induction xs arbitrary: i) (auto split: option.splits)
  from a s pos nf obtain j
    where j: "search_forward gr (drop (Suc current_index) item_list) (Suc current_index) = Inr (Some j)"
      and adj: "adjust gr item_list current_index sub_item j = Inl FloatPower"
    by (auto simp: rescan_body_def split: sum.splits option.splits)
  from search_from_found [OF j] have "current_index < j" by simp
  moreover have "py_int_truediv a b \<noteq> Inl FloatPower" for a b
    by (auto simp: py_int_truediv_def truediv_trunc_def Let_def split: sum.splits if_splits)
  ultimately show False using adj
    by (auto simp: adjust_def split: if_splits option.splits sum.splits)
qed

lemma rescan_loop_no_float: "snd (rescan_loop item_list rest current_index gr) \<noteq> Some FloatPower"
proof (induction rest arbitrary: current_index gr)
  case Nil
  show ?case by simp
next
  case (Cons sub_item rest)
  then show ?case
    using rescan_body_no_float [of item_list current_index sub_item gr]
    by (cases "rescan_body item_list current_index sub_item gr") auto
qed

lemma float_power_unreachable: "snd (process_item_iterative item_lists gr) \<noteq> Some FloatPower"
  unfolding process_rescan
proof (induction item_lists arbitrary: gr)
  case Nil
  show ?case by simp
next
  case (Cons item_list others)
  then show ?case
    using rescan_loop_no_float [of item_list item_list 0 gr]
    by (cases "rescan_loop item_list item_list 0 gr") (auto split: option.splits)
qed

text \<open>
  A chain of four with two sources, \<open>A\<close> and \<open>C\<close>, each followed by an item with no
  extra; \<open>ex_store1\<close> is the dict after the iteration for \<open>A\<close>, \<open>ex_store2\<close> after the
  one for \<open>C\<close>.
\<close>

definition ex_chain :: "string list" where
  "ex_chain = [''A'', ''B'', ''C'', ''D'']"

definition ex_store :: good_result where
  "ex_store =
     [(''A'', \<lparr>good = ''A'', item_id = 104111, extra = 9, num = 100\<rparr>),
      (''B'', \<lparr>good = ''B'', item_id = 104112, extra = 0, num = 50\<rparr>),
      (''C'', \<lparr>good = ''C'', item_id = 104113, extra = 9, num = 30\<rparr>),
      (''D'', \<lparr>good = ''D'', item_id = 104114, extra = 0, num = 20\<rparr>)]"

definition ex_store1 :: good_result where
  "ex_store1 =
     [(''A'', \<lparr>good = ''A'', item_id = 104111, extra = 9, num = 100\<rparr>),
      (''B'', \<lparr>good = ''B'', item_id = 104112, extra = 0, num = 47\<rparr>),
      (''C'', \<lparr>good = ''C'', item_id = 104113, extra = 9, num = 30\<rparr>),
      (''D'', \<lparr>good = ''D'', item_id = 104114, extra = 0, num = 20\<rparr>)]"

definition ex_store2 :: good_result where
  "ex_store2 =
     [(''A'', \<lparr>good = ''A'', item_id = 104111, extra = 9, num = 100\<rparr>),
      (''B'', \<lparr>good = ''B'', item_id = 104112, extra = 0, num = 47\<rparr>),
      (''C'', \<lparr>good = ''C'', item_id = 104113, extra = 9, num = 30\<rparr>),
      (''D'', \<lparr>good = ''D'', item_id = 104114, extra = 0, num = 17\<rparr>)]"

lemma truediv_9_3: "py_int_truediv 9 3 = Inr 3"
  by (simp add: truediv_eval)

lemma ex_body_A: "chain_body ex_chain 0 ''A'' (ex_store, None) = Inr (ex_store1, Some (Suc 0))"
  by (simp add: ex_chain_def ex_store_def ex_store1_def chain_eval truediv_9_3)

lemma ex_body_B:
  "chain_body ex_chain (Suc 0) ''B'' (ex_store1, Some (Suc 0)) = Inr (ex_store1, Some (Suc 0))"
  by (simp add: ex_chain_def ex_store1_def chain_eval)

lemma ex_body_C:
  "chain_body ex_chain (Suc (Suc 0)) ''C'' (ex_store1, Some (Suc 0))
     = Inr (ex_store2, Some (Suc (Suc (Suc 0))))"
  by (simp add: ex_chain_def ex_store1_def ex_store2_def chain_eval truediv_9_3)

lemma ex_body_D:
  "chain_body ex_chain (Suc (Suc (Suc 0))) ''D'' (ex_store2, Some (Suc (Suc (Suc 0))))
     = Inr (ex_store2, Some (Suc (Suc (Suc 0))))"
  by (simp add: ex_chain_def ex_store2_def chain_eval)

lemmas ex_bodies = ex_body_A ex_body_B ex_body_C ex_body_D

lemma ex_prefix: "chain_loop ex_chain (take 2 ex_chain) 0 (ex_store, None) = ((ex_store1, Some 1), None)"
proof -
  have "take 2 ex_chain = [''A'', ''B'']" by (simp add: ex_chain_def)
  then show ?thesis by (simp add: ex_bodies)
qed

lemma ex_loop: "chain_loop ex_chain ex_chain 0 (ex_store, None) = ((ex_store2, Some 3), None)"
proof -
  have "chain_loop ex_chain [''A'', ''B'', ''C'', ''D''] 0 (ex_store, None) = ((ex_store2, Some 3), None)"
    by (simp add: ex_bodies eval_nat_numeral)
  then show ?thesis by (simp add: ex_chain_def [symmetric])
qed

lemma ex_process: "process_item_iterative [ex_chain] ex_store = (ex_store2, None)"
  by (simp add: ex_loop)

lemma ex_targets: "chosen_targets [ex_chain] ex_store = [''B'', ''D'']"
proof -
  have A: "chosen_target ex_chain 0 ''A'' (ex_store, None) = Some ''B''"
    by (simp add: ex_chain_def ex_store_def chosen_target_def chain_eval)
  have B: "chosen_target ex_chain (Suc 0) ''B'' (ex_store1, Some (Suc 0)) = None"
    by (simp add: ex_chain_def ex_store1_def chosen_target_def chain_eval)
  have C: "chosen_target ex_chain (Suc (Suc 0)) ''C'' (ex_store1, Some (Suc 0)) = Some ''D''"
    by (simp add: ex_chain_def ex_store1_def chosen_target_def chain_eval)
  have D: "chosen_target ex_chain (Suc (Suc (Suc 0))) ''D'' (ex_store2, Some (Suc (Suc (Suc 0)))) = None"
    by (simp add: ex_chain_def ex_store2_def chosen_target_def chain_eval)
  have "chain_targets ex_chain [''A'', ''B'', ''C'', ''D''] 0 (ex_store, None) = [''B'', ''D'']"
    by (simp add: ex_bodies A B C D)
  then have "chain_targets ex_chain ex_chain 0 (ex_store, None) = [''B'', ''D'']"
    by (simp add: ex_chain_def [symmetric])
  then show ?thesis by (simp add: ex_loop)
qed

text \<open>
  C9. Whatever the chains and the dict, and whether or not an exception ends the run,
  \<open>process_item_iterative\<close> leaves the keys of the dict as they are (and in their order),
  and under every key the \<open>good\<close>, \<open>id\<close> and \<open>extra\<close> of the item; the \<open>num\<close> of an
  item changes only if its name is among the targets that line 238 stored to.
\<close>

theorem process_item_frame:
  assumes "process_item_iterative item_lists gr = (gr', err)"
  shows "map fst gr' = map fst gr
       \<and> (\<forall>name. (map_of gr name = None \<longrightarrow> map_of gr' name = None)
            \<and> (\<forall>it. map_of gr name = Some it \<longrightarrow>
                 (\<exists>it'. map_of gr' name = Some it' \<and> good it' = good it \<and> item_id it' = item_id it
                    \<and> extra it' = extra it
                    \<and> (name \<notin> set (chosen_targets item_lists gr) \<longrightarrow> num it' = num it))))"
proof (intro conjI allI impI)
  note f = process_frame [OF assms]
  from f show "map fst gr' = map fst gr" by (simp add: frame_def)
  fix name
  from f have c: "case map_of gr name of
             None \<Rightarrow> map_of gr' name = None
           | Some it \<Rightarrow>
               (\<exists>it'. map_of gr' name = Some it' \<and> good it' = good it \<and> item_id it' = item_id it
                  \<and> extra it' = extra it \<and> (name \<notin> set (chosen_targets item_lists gr) \<longrightarrow> num it' = num it))"
    unfolding frame_def by blast
  {
    assume "map_of gr name = None"
    with c show "map_of gr' name = None" by simp
  }
  {
    fix it assume "map_of gr name = Some it"
    with c show "\<exists>it'. map_of gr' name = Some it' \<and> good it' = good it \<and> item_id it' = item_id it
                    \<and> extra it' = extra it
                    \<and> (name \<notin> set (chosen_targets item_lists gr) \<longrightarrow> num it' = num it)"
      by simp
  }
qed

theorem process_item_frame_witness:
  "process_item_iterative [ex_chain] ex_store = (ex_store2, None)
   \<and> chosen_targets [ex_chain] ex_store = [''B'', ''D'']
   \<and> map fst ex_store2 = map fst ex_store
   \<and> (\<exists>it'. map_of ex_store2 ''C'' = Some it' \<and> extra it' = 9 \<and> num it' = 30)"
proof -
  note f = process_item_frame [OF ex_process]
  have c: "map_of ex_store ''C'' = Some \<lparr>good = ''C'', item_id = 104113, extra = 9, num = 30\<rparr>"
    by (simp add: ex_store_def)
  have n: "''C'' \<notin> set (chosen_targets [ex_chain] ex_store)"
    unfolding ex_targets by simp
  from f [THEN conjunct2, rule_format, THEN conjunct2, rule_format, OF c]
  obtain it' where "map_of ex_store2 ''C'' = Some it'"
    and "extra it' = extra \<lparr>good = ''C'', item_id = 104113, extra = 9, num = 30\<rparr>"
    and "''C'' \<notin> set (chosen_targets [ex_chain] ex_store) \<longrightarrow>
           num it' = num \<lparr>good = ''C'', item_id = 104113, extra = 9, num = 30\<rparr>"
    by blast
  with n have "\<exists>it'. map_of ex_store2 ''C'' = Some it' \<and> extra it' = 9 \<and> num it' = 30"
    by simp
  with f [THEN conjunct1] ex_process ex_targets show ?thesis by (simp only: simp_thms)
qed

text \<open>
  C1, as the claim states it, fails. On \<open>ex_chain\<close> the first two iterations leave the
  cached index 1, the position of \<open>B\<close>, and \<open>B\<close> still has no extra: the cache is valid.
  At the next source, \<open>C\<close>, the condition of line 229 is true all the same, the search
  runs again from the position after \<open>C\<close>, and the index becomes 3.
\<close>

theorem cache_counterexample:
  "chain_loop ex_chain (take 2 ex_chain) 0 (ex_store, None) = ((ex_store1, Some 1), None)
   \<and> map_of ex_store1 (ex_chain ! 1) = Some \<lparr>good = ''B'', item_id = 104112, extra = 0, num = 47\<rparr>
   \<and> search_again ex_store1 ex_chain (Some 1) = Inr True
   \<and> chain_body ex_chain 2 ''C'' (ex_store1, Some 1) = Inr (ex_store2, Some 3)"
proof -
  have "map_of ex_store1 (ex_chain ! 1) = Some \<lparr>good = ''B'', item_id = 104112, extra = 0, num = 47\<rparr>"
    by (simp add: ex_chain_def ex_store1_def)
  moreover have "search_again ex_store1 ex_chain (Some 1) = Inr True"
    by (simp add: ex_chain_def ex_store1_def search_again_def)
  moreover have "chain_body ex_chain 2 ''C'' (ex_store1, Some 1) = Inr (ex_store2, Some 3)"
    using ex_body_C by (simp add: eval_nat_numeral)
  ultimately show ?thesis by (simp only: ex_prefix simp_thms)
qed

text \<open>
  C1, amended. The index is searched again at every item with \<^verbatim>\<open>extra > 0\<close>: whatever
  the chain, the dict and the number \<open>n\<close> of iterations done, the condition of line 229 is
  true, because a cached index always points at an item with \<^verbatim>\<open>extra == 0\<close>. So the
  target of a source is the first position after it whose item has no extra, and
  \<open>process_item_iterative\<close> is the loop that searches from \<^verbatim>\<open>current_index + 1\<close> for
  every source, with no index kept.
\<close>

theorem process_item_iterative_rescans:
  "process_item_iterative item_lists gr = process_item_rescan item_lists gr
   \<and> search_again (fst (fst (chain_loop item_list (take n item_list) 0 (gr, None)))) item_list
        (snd (fst (chain_loop item_list (take n item_list) 0 (gr, None)))) = Inr True"
proof
  show "process_item_iterative item_lists gr = process_item_rescan item_lists gr"
    by (rule process_rescan)
next
  have "cache_ok (fst (gr, None)) item_list (snd (gr, None :: nat option))"
    by (simp add: cache_ok_def)
  from search_again_ok [OF chain_loop_cache_ok [OF this]]
  show "search_again (fst (fst (chain_loop item_list (take n item_list) 0 (gr, None)))) item_list
        (snd (fst (chain_loop item_list (take n item_list) 0 (gr, None)))) = Inr True" .
qed

theorem process_item_iterative_rescans_witness:
  "process_item_rescan [ex_chain] ex_store = (ex_store2, None)
   \<and> search_again ex_store1 ex_chain (Some 1) = Inr True"
proof -
  note t = process_item_iterative_rescans [of "[ex_chain]" ex_store ex_chain 2]
  have "process_item_rescan [ex_chain] ex_store = process_item_iterative [ex_chain] ex_store"
    by (rule t [THEN conjunct1, symmetric])
  also have "\<dots> = (ex_store2, None)" by (rule ex_process)
  finally have 1: "process_item_rescan [ex_chain] ex_store = (ex_store2, None)" .
  from t [THEN conjunct2] have 2: "search_again ex_store1 ex_chain (Some 1) = Inr True"
    unfolding ex_prefix fst_conv snd_conv .
  from 1 2 show ?thesis by (rule conjI)
qed

end
